theory Spec2Isabelle
  imports Main "HOL-Library.Word"
begin

unbundle bit_operations_syntax

section \<open>Data shared by the modules\<close>

text \<open>
  A \<^verbatim>\<open>std::string\<close> and a \<^verbatim>\<open>std::vector<uint8_t>\<close> are sequences of bytes;
  both are lists of 8-bit words. An \<^verbatim>\<open>int\<close> is a 32-bit word: \<^verbatim>\<open>+\<close> and \<^verbatim>\<open><<\<close>
  wrap around, \<^verbatim>\<open>>>\<close> is the arithmetic shift \<open>signed_drop_bit\<close>.
\<close>

type_synonym byte = "8 word"

section \<open>message_encryption.cpp\<close>

definition ENCRYPTION_KEY :: "byte list" where
  "ENCRYPTION_KEY = map of_char ''FluxorSecretKey2024!''"

definition BASE64_CHARS :: "byte list" where
  "BASE64_CHARS =
     map of_char ''ABCDEFGHIJKLMNOPQRSTUVWXYZabcdefghijklmnopqrstuvwxyz0123456789+/''"

text \<open>The inner loop of \<^verbatim>\<open>base64Encode\<close>: \<^verbatim>\<open>while (valb >= 0) { push; valb -= 6; }\<close>.\<close>

function base64_emit :: "32 word \<Rightarrow> int \<Rightarrow> byte list \<Rightarrow> byte list \<times> int" where
  "base64_emit val valb output =
     (if 0 \<le> valb
      then base64_emit val (valb - 6)
             (output @ [BASE64_CHARS ! unat (signed_drop_bit (nat valb) val AND 0x3F)])
      else (output, valb))"
  by pat_completeness auto
termination
  by (relation "measure (\<lambda>(val, valb, output). nat (valb + 1))") auto

declare base64_emit.simps [simp del]

text \<open>The loop \<^verbatim>\<open>for (unsigned char c : input)\<close> of \<^verbatim>\<open>base64Encode\<close>.\<close>

fun base64Encode_loop ::
  "byte list \<Rightarrow> 32 word \<Rightarrow> int \<Rightarrow> byte list \<Rightarrow> 32 word \<times> int \<times> byte list" where
  "base64Encode_loop [] val valb output = (val, valb, output)"
| "base64Encode_loop (c # cs) val valb output =
     (let val' = push_bit 8 val + ucast c;
          (output', valb') = base64_emit val' (valb + 8) output
      in base64Encode_loop cs val' valb' output')"

text \<open>The padding loop \<^verbatim>\<open>while (output.size() % 4) output.push_back('=')\<close>.\<close>

function base64_pad :: "byte list \<Rightarrow> byte list" where
  "base64_pad output =
     (if length output mod 4 \<noteq> 0 then base64_pad (output @ [of_char CHR ''=''])
      else output)"
  by pat_completeness auto
termination
proof (relation "measure (\<lambda>output. (4 - length output mod 4) mod 4)")
  show "wf (measure (\<lambda>output :: byte list. (4 - length output mod 4) mod 4))"
    by simp
next
  fix out :: "byte list"
  assume nz: "length out mod 4 \<noteq> 0"
  have "length out mod 4 < 4"
    by simp
  with nz have "length out mod 4 = 1 \<or> length out mod 4 = 2 \<or> length out mod 4 = 3"
    by linarith
  then show "(out @ [of_char CHR ''=''], out)
      \<in> measure (\<lambda>output. (4 - length output mod 4) mod 4)"
    by (auto simp: mod_Suc)
qed

declare base64_pad.simps [simp del]

definition base64Encode :: "byte list \<Rightarrow> byte list" where
  "base64Encode input =
     (let (val, valb, output) = base64Encode_loop input 0 (- 6) [];
          output' =
            (if - 6 < valb
             then output @
               [BASE64_CHARS ! unat (signed_drop_bit (nat (valb + 8)) (push_bit 8 val) AND 0x3F)]
             else output)
      in base64_pad output')"

text \<open>The search \<^verbatim>\<open>for (size_t i = 0; i < 64; ++i) if (BASE64_CHARS[i] == c)\<close>.\<close>

function base64_find :: "byte \<Rightarrow> nat \<Rightarrow> nat option" where
  "base64_find c i =
     (if i < 64
      then (if BASE64_CHARS ! i = c then Some i else base64_find c (Suc i))
      else None)"
  by pat_completeness auto
termination
  by (relation "measure (\<lambda>(c, i). 64 - i)") auto

declare base64_find.simps [simp del]

text \<open>
  The loop of \<^verbatim>\<open>base64Decode\<close>: \<^verbatim>\<open>=\<close> ends it, a character outside the table is
  skipped.
\<close>

fun base64Decode_loop :: "byte list \<Rightarrow> 32 word \<Rightarrow> int \<Rightarrow> byte list \<Rightarrow> byte list" where
  "base64Decode_loop [] val valb output = output"
| "base64Decode_loop (c # cs) val valb output =
     (if c = of_char CHR ''='' then output
      else case base64_find c 0 of
        None \<Rightarrow> base64Decode_loop cs val valb output
      | Some pos \<Rightarrow>
          (let val' = push_bit 6 val + of_nat pos;
               valb' = valb + 6
           in if 0 \<le> valb'
              then base64Decode_loop cs val' (valb' - 8)
                     (output @ [ucast (signed_drop_bit (nat valb') val' AND 0xFF)])
              else base64Decode_loop cs val' valb' output))"

definition base64Decode :: "byte list \<Rightarrow> byte list" where
  "base64Decode input = base64Decode_loop input 0 (- 8) []"

text \<open>
  The XOR loop shared by \<^verbatim>\<open>encryptMessage\<close> and \<^verbatim>\<open>decryptMessage\<close>:
  \<^verbatim>\<open>push_back(message[i] ^ ENCRYPTION_KEY[i % ENCRYPTION_KEY.size()])\<close>, from index \<open>i\<close>.
\<close>

fun xor_with_key :: "byte list \<Rightarrow> nat \<Rightarrow> byte list" where
  "xor_with_key [] i = []"
| "xor_with_key (m # ms) i =
     (m XOR ENCRYPTION_KEY ! (i mod length ENCRYPTION_KEY)) # xor_with_key ms (Suc i)"

definition encryptMessage :: "byte list \<Rightarrow> byte list" where
  "encryptMessage message =
     (if message = [] then message else base64Encode (xor_with_key message 0))"

definition decryptMessage :: "byte list \<Rightarrow> byte list" where
  "decryptMessage encryptedMessage =
     (if encryptedMessage = [] then encryptedMessage
      else xor_with_key (base64Decode encryptedMessage) 0)"

section \<open>blob_storage.cpp\<close>

text \<open>
  The file system is a map from path names to nodes. The flag \<open>io_failure\<close> says that a
  stream goes bad while it is written or read (\<^verbatim>\<open>!file.good()\<close>).
\<close>

datatype node = Directory | Regular "byte list"

record filesystem =
  nodes :: "string \<Rightarrow> node option"
  io_failure :: bool

datatype errno = EEXIST | ENOENT

text \<open>\<^verbatim>\<open>filePath.find_last_of('/')\<close>: the index of the last slash, if there is one.\<close>

fun find_last_of_slash :: "string \<Rightarrow> nat option" where
  "find_last_of_slash [] = None"
| "find_last_of_slash (c # cs) =
     (case find_last_of_slash cs of
        Some k \<Rightarrow> Some (Suc k)
      | None \<Rightarrow> (if c = CHR ''/'' then Some 0 else None))"

text \<open>
  The positions \<^verbatim>\<open>dirPath.find('/', pos + 1)\<close> visits from \<^verbatim>\<open>pos = 0\<close>: the slashes
  at index 1 and later, in increasing order.
\<close>

definition slash_positions :: "string \<Rightarrow> nat list" where
  "slash_positions dirPath = filter (\<lambda>i. dirPath ! i = CHR ''/'') [1..<length dirPath]"

text \<open>
  \<^verbatim>\<open>mkdir(path, 0755)\<close> fails with \<^verbatim>\<open>EEXIST\<close> when the path exists and with
  \<^verbatim>\<open>ENOENT\<close> when the path is empty or its parent is not a directory. A path with no
  slash is relative to the working directory; the parent of a path whose only slash is
  the first character is the root.
\<close>

definition parent_is_directory :: "string \<Rightarrow> filesystem \<Rightarrow> bool" where
  "parent_is_directory path fs =
     (case find_last_of_slash path of
        None \<Rightarrow> True
      | Some k \<Rightarrow> k = 0 \<or> nodes fs (take k path) = Some Directory)"

definition mkdir :: "string \<Rightarrow> filesystem \<Rightarrow> errno option \<times> filesystem" where
  "mkdir path fs =
     (if nodes fs path \<noteq> None then (Some EEXIST, fs)
      else if path = [] then (Some ENOENT, fs)
      else if parent_is_directory path fs
      then (None, fs\<lparr>nodes := (nodes fs)(path := Some Directory)\<rparr>)
      else (Some ENOENT, fs))"

text \<open>
  The loop of \<^verbatim>\<open>ensureDirectoryExists\<close> that creates the parent directories: a
  \<^verbatim>\<open>mkdir\<close> that fails with anything but \<^verbatim>\<open>EEXIST\<close> ends it with \<^verbatim>\<open>false\<close>.
\<close>

fun create_parents :: "string \<Rightarrow> nat list \<Rightarrow> filesystem \<Rightarrow> bool \<times> filesystem" where
  "create_parents dirPath [] fs = (True, fs)"
| "create_parents dirPath (pos # rest) fs =
     (let parentDir = take pos dirPath in
      if nodes fs parentDir = None
      then (case mkdir parentDir fs of
              (Some ENOENT, fs') \<Rightarrow> (False, fs')
            | (_, fs') \<Rightarrow> create_parents dirPath rest fs')
      else create_parents dirPath rest fs)"

definition ensureDirectoryExists :: "string \<Rightarrow> filesystem \<Rightarrow> bool \<times> filesystem" where
  "ensureDirectoryExists filePath fs =
     (case find_last_of_slash filePath of
        None \<Rightarrow> (False, fs)
      | Some lastSlash \<Rightarrow>
          (let dirPath = take lastSlash filePath in
           if nodes fs dirPath = Some Directory then (True, fs)
           else case create_parents dirPath (slash_positions dirPath) fs of
             (False, fs') \<Rightarrow> (False, fs')
           | (True, fs') \<Rightarrow>
               (case mkdir dirPath fs' of
                  (Some ENOENT, fs'') \<Rightarrow> (False, fs'')
                | (_, fs'') \<Rightarrow> (True, fs''))))"

text \<open>
  \<^verbatim>\<open>saveMessages(filePath, data, length)\<close>. The pointer \<open>data\<close> is \<open>None\<close> when it is
  \<^verbatim>\<open>nullptr\<close>. \<^verbatim>\<open>std::ofstream\<close> opens (and truncates) a path that is not a directory
  and whose parent is one; \<^verbatim>\<open>file.write\<close> stores the first \<open>length\<close> bytes.
\<close>

definition written_bytes :: "byte list option \<Rightarrow> nat \<Rightarrow> byte list" where
  "written_bytes data len = (case data of None \<Rightarrow> [] | Some bytes \<Rightarrow> take len bytes)"

definition saveMessages ::
  "string \<Rightarrow> byte list option \<Rightarrow> nat \<Rightarrow> filesystem \<Rightarrow> bool \<times> filesystem" where
  "saveMessages filePath data len fs =
     (if data = None \<or> len = 0 then (False, fs)
      else case ensureDirectoryExists filePath fs of
        (False, fs1) \<Rightarrow> (False, fs1)
      | (True, fs1) \<Rightarrow>
          (if nodes fs1 filePath = Some Directory then (False, fs1)
           else if parent_is_directory filePath fs1
           then (if io_failure fs1
                 then (False, fs1\<lparr>nodes := (nodes fs1)(filePath := Some (Regular []))\<rparr>)
                 else (True, fs1\<lparr>nodes := (nodes fs1)
                         (filePath := Some (Regular (written_bytes data len)))\<rparr>))
           else (False, fs1)))"

text \<open>
  \<^verbatim>\<open>loadMessages(filePath, data)\<close>: the second component is the vector \<open>data\<close> after the
  call. A path that \<^verbatim>\<open>stat\<close> does not find gives \<^verbatim>\<open>true\<close> and the empty vector.
\<close>

definition loadMessages :: "string \<Rightarrow> byte list \<Rightarrow> filesystem \<Rightarrow> bool \<times> byte list" where
  "loadMessages filePath data fs =
     (case nodes fs filePath of
        None \<Rightarrow> (True, [])
      | Some Directory \<Rightarrow> (False, data)
      | Some (Regular content) \<Rightarrow>
          (if length content = 0 then (True, [])
           else if io_failure fs then (False, replicate (length content) 0)
           else (True, content)))"

section \<open>thread_manager.cpp: the thread pool\<close>

text \<open>
  The pool is modelled as a transition system. Every access to \<^verbatim>\<open>taskQueue_\<close> and
  \<^verbatim>\<open>stopPool_\<close> happens under \<^verbatim>\<open>queueMutex_\<close>, so each critical section is one
  atomic step, and a run of the program is an interleaving of such steps. A pool thread
  is at the wait of \<^verbatim>\<open>workerFunction\<close>, inside a task, or has returned.
\<close>

datatype 't pool_thread = AtWait | InTask 't | Finished

text \<open>Where the caller of \<^verbatim>\<open>shutdownThreadPool\<close> stands.\<close>

datatype shutdown_pc = NotCalled | Joining | Returned

text \<open>
  The fields \<open>accepted\<close>, \<open>started\<close>, \<open>startedBeforeStop\<close> and \<open>discarded\<close> record
  history: the tasks \<^verbatim>\<open>submitTask\<close> put into the queue, the tasks a worker took out and
  ran, the value of \<open>started\<close> when the stop flag was first set, and the tasks that
  \<^verbatim>\<open>shutdownThreadPool\<close> cleared from the queue.
\<close>

record 't thread_pool =
  poolThreads :: "'t pool_thread list"
  taskQueue :: "'t list"
  stopPool :: bool
  activeTasks :: nat
  shutdown_at :: shutdown_pc
  accepted :: "'t list"
  started :: "'t list"
  startedBeforeStop :: "'t list"
  discarded :: "'t list"

text \<open>A new \<^verbatim>\<open>ThreadManager\<close> after \<^verbatim>\<open>initializeThreadPool(poolSize)\<close>.\<close>

definition initializeThreadPool :: "nat \<Rightarrow> 't thread_pool" where
  "initializeThreadPool poolSize =
     \<lparr>poolThreads = replicate poolSize AtWait, taskQueue = [], stopPool = False,
      activeTasks = 0, shutdown_at = NotCalled, accepted = [], started = [],
      startedBeforeStop = [], discarded = []\<rparr>"

definition submitTask :: "'t \<Rightarrow> 't thread_pool \<Rightarrow> 't thread_pool" where
  "submitTask task p =
     (if stopPool p then p
      else p\<lparr>taskQueue := taskQueue p @ [task], accepted := accepted p @ [task]\<rparr>)"

text \<open>
  The critical section of \<^verbatim>\<open>workerFunction\<close>: the thread stays at the wait while the
  predicate \<^verbatim>\<open>stopPool_ || !taskQueue_.empty()\<close> is false; it returns when the pool is
  stopped and the queue is empty; otherwise it takes the front task.
\<close>

definition worker_wait :: "nat \<Rightarrow> 't thread_pool \<Rightarrow> 't thread_pool" where
  "worker_wait w p =
     (if stopPool p \<or> taskQueue p \<noteq> []
      then (if stopPool p \<and> taskQueue p = []
            then p\<lparr>poolThreads := (poolThreads p)[w := Finished]\<rparr>
            else p\<lparr>poolThreads := (poolThreads p)[w := InTask (hd (taskQueue p))],
                   taskQueue := tl (taskQueue p),
                   activeTasks := activeTasks p + 1,
                   started := started p @ [hd (taskQueue p)]\<rparr>)
      else p)"

text \<open>The task has run to its end (or raised, which is caught): \<^verbatim>\<open>activeTasks_--\<close>.\<close>

definition worker_done :: "nat \<Rightarrow> 't thread_pool \<Rightarrow> 't thread_pool" where
  "worker_done w p =
     p\<lparr>poolThreads := (poolThreads p)[w := AtWait], activeTasks := activeTasks p - 1\<rparr>"

text \<open>
  \<^verbatim>\<open>shutdownThreadPool\<close> in two steps: the critical section that sets the flag, and,
  once every pool thread has returned (the joins), the clearing of the threads and of
  the queue.
\<close>

definition shutdown_set_stop :: "'t thread_pool \<Rightarrow> 't thread_pool" where
  "shutdown_set_stop p =
     p\<lparr>stopPool := True, shutdown_at := Joining,
       startedBeforeStop := (if stopPool p then startedBeforeStop p else started p)\<rparr>"

definition shutdown_join_clear :: "'t thread_pool \<Rightarrow> 't thread_pool" where
  "shutdown_join_clear p =
     (if shutdown_at p = Joining \<and> list_all (\<lambda>t. t = Finished) (poolThreads p)
      then p\<lparr>poolThreads := [], discarded := discarded p @ taskQueue p, taskQueue := [],
             shutdown_at := Returned\<rparr>
      else p)"

datatype 't pool_action = Submit 't | Worker nat | ShutdownSetStop | ShutdownJoinClear

fun pool_step :: "'t pool_action \<Rightarrow> 't thread_pool \<Rightarrow> 't thread_pool" where
  "pool_step (Submit task) p = submitTask task p"
| "pool_step (Worker w) p =
     (if w < length (poolThreads p)
      then (case poolThreads p ! w of
              AtWait \<Rightarrow> worker_wait w p
            | InTask task \<Rightarrow> worker_done w p
            | Finished \<Rightarrow> p)
      else p)"
| "pool_step ShutdownSetStop p = (if shutdown_at p = Joining then p else shutdown_set_stop p)"
| "pool_step ShutdownJoinClear p = shutdown_join_clear p"

fun pool_run :: "'t pool_action list \<Rightarrow> 't thread_pool \<Rightarrow> 't thread_pool" where
  "pool_run [] p = p"
| "pool_run (a # as) p = pool_run as (pool_step a p)"

section \<open>io_bridge.cpp\<close>

datatype ptr = nullptr | Ref nat

text \<open>
  An \<^verbatim>\<open>Event\<close>: its type tag, its identifier and the payload of that type. A
  \<^verbatim>\<open>float\<close> and a \<^verbatim>\<open>double\<close> are carried as their 32 and 64 bits.
\<close>

datatype event =
    E_STRING string "byte list"
  | E_INT string "32 word"
  | E_FLOAT string "32 word"
  | E_DOUBLE string "64 word"
  | E_BOOLEAN string bool
  | E_BYTE_ARRAY string "byte list"

text \<open>
  Where a thread inside a \<^verbatim>\<open>postXEvent\<close> call stands: not in a call; past the
  \<^verbatim>\<open>isInitialized\<close> check with the event built; past the \<^verbatim>\<open>push_back\<close>; past a
  successful \<^verbatim>\<open>compare_exchange_strong\<close>, about to call \<^verbatim>\<open>submitTask\<close>.
\<close>

datatype post_pc = Idle | Built event | Pushed | Submitting

text \<open>
  Where the task \<^verbatim>\<open>[this]() { processEvents(); processingScheduled_ = false; }\<close>
  stands: at the entry of \<^verbatim>\<open>processEvents\<close>; at the swap of the queue; in the delivery
  loop with the events still to deliver; at the store that clears the flag.
\<close>

datatype drain_pc = AtProcessEvents | AtSwap | Delivering "event list" | AtClearFlag

text \<open>
  The bridge with the pool it posts to, the threads that call \<^verbatim>\<open>postXEvent\<close>, and the
  calls the listener has received (\<open>delivered\<close>). \<open>envAvailable\<close> says that
  \<^verbatim>\<open>getJNIEnv\<close> gives a pool thread an environment. \<^verbatim>\<open>eventQueue_\<close> is accessed
  under \<^verbatim>\<open>queueMutex_\<close> and \<^verbatim>\<open>processingScheduled_\<close> is a \<^verbatim>\<open>std::atomic<bool>\<close>:
  each access is one atomic step.
\<close>

record bridge_system =
  jvm :: ptr
  listenerObject :: ptr
  listenerClass :: ptr
  threadManager :: ptr
  eventQueue :: "event list"
  stopProcessing :: bool
  processingScheduled :: bool
  envAvailable :: bool
  pool :: "drain_pc thread_pool"
  posters :: "post_pc list"
  delivered :: "event list"

definition isInitialized :: "bridge_system \<Rightarrow> bool" where
  "isInitialized s = (jvm s \<noteq> nullptr \<and> listenerObject s \<noteq> nullptr)"

text \<open>
  The first step of every \<^verbatim>\<open>postXEvent\<close>, on thread \<open>i\<close>: the call returns at once
  when the bridge is not initialized, otherwise the event is built.
\<close>

definition post_check :: "nat \<Rightarrow> event \<Rightarrow> bridge_system \<Rightarrow> bridge_system" where
  "post_check i e s =
     (if \<not> isInitialized s then s else s\<lparr>posters := (posters s)[i := Built e]\<rparr>)"

definition postStringEvent :: "nat \<Rightarrow> string \<Rightarrow> byte list \<Rightarrow> bridge_system \<Rightarrow> bridge_system" where
  "postStringEvent i eventId data s = post_check i (E_STRING eventId data) s"

definition postIntEvent :: "nat \<Rightarrow> string \<Rightarrow> 32 word \<Rightarrow> bridge_system \<Rightarrow> bridge_system" where
  "postIntEvent i eventId data s = post_check i (E_INT eventId data) s"

definition postFloatEvent :: "nat \<Rightarrow> string \<Rightarrow> 32 word \<Rightarrow> bridge_system \<Rightarrow> bridge_system" where
  "postFloatEvent i eventId data s = post_check i (E_FLOAT eventId data) s"

definition postDoubleEvent :: "nat \<Rightarrow> string \<Rightarrow> 64 word \<Rightarrow> bridge_system \<Rightarrow> bridge_system" where
  "postDoubleEvent i eventId data s = post_check i (E_DOUBLE eventId data) s"

definition postBooleanEvent :: "nat \<Rightarrow> string \<Rightarrow> bool \<Rightarrow> bridge_system \<Rightarrow> bridge_system" where
  "postBooleanEvent i eventId data s = post_check i (E_BOOLEAN eventId data) s"

text \<open>\<^verbatim>\<open>byteArrayValue.assign(data, data + length)\<close> copies the first \<open>length\<close> bytes.\<close>

definition postByteArrayEvent ::
  "nat \<Rightarrow> string \<Rightarrow> byte list \<Rightarrow> nat \<Rightarrow> bridge_system \<Rightarrow> bridge_system" where
  "postByteArrayEvent i eventId data len s =
     post_check i (E_BYTE_ARRAY eventId (take len data)) s"

text \<open>The critical section \<^verbatim>\<open>eventQueue_.push_back(std::move(event))\<close>.\<close>

definition post_push :: "nat \<Rightarrow> event \<Rightarrow> bridge_system \<Rightarrow> bridge_system" where
  "post_push i e s =
     s\<lparr>eventQueue := eventQueue s @ [e], posters := (posters s)[i := Pushed]\<rparr>"

text \<open>
  \<^verbatim>\<open>if (threadManager_ != nullptr)\<close> and the
  \<^verbatim>\<open>processingScheduled_.compare_exchange_strong(expected, true)\<close> with
  \<^verbatim>\<open>expected = false\<close>: when it fails the call returns.
\<close>

definition post_cas :: "nat \<Rightarrow> bridge_system \<Rightarrow> bridge_system" where
  "post_cas i s =
     (if threadManager s \<noteq> nullptr
      then (if processingScheduled s = False
            then s\<lparr>processingScheduled := True, posters := (posters s)[i := Submitting]\<rparr>
            else s\<lparr>posters := (posters s)[i := Idle]\<rparr>)
      else s\<lparr>posters := (posters s)[i := Idle]\<rparr>)"

definition post_submit :: "nat \<Rightarrow> bridge_system \<Rightarrow> bridge_system" where
  "post_submit i s =
     s\<lparr>pool := submitTask AtProcessEvents (pool s), posters := (posters s)[i := Idle]\<rparr>"

text \<open>The task on pool thread \<open>w\<close> moves to \<open>pc\<close>.\<close>

definition set_task :: "nat \<Rightarrow> drain_pc \<Rightarrow> bridge_system \<Rightarrow> bridge_system" where
  "set_task w pc s =
     s\<lparr>pool := (pool s)\<lparr>poolThreads := (poolThreads (pool s))[w := InTask pc]\<rparr>\<rparr>"

text \<open>
  The entry of \<^verbatim>\<open>processEvents\<close>: it returns when \<^verbatim>\<open>jvm_\<close> or
  \<^verbatim>\<open>listenerObject_\<close> is null or no environment is available.
\<close>

definition processEvents_entry :: "nat \<Rightarrow> bridge_system \<Rightarrow> bridge_system" where
  "processEvents_entry w s =
     (if jvm s = nullptr \<or> listenerObject s = nullptr then set_task w AtClearFlag s
      else if envAvailable s then set_task w AtSwap s
      else set_task w AtClearFlag s)"

text \<open>
  The critical section \<^verbatim>\<open>eventsToProcess = std::move(eventQueue_); eventQueue_.clear()\<close>.
\<close>

definition processEvents_swap :: "nat \<Rightarrow> bridge_system \<Rightarrow> bridge_system" where
  "processEvents_swap w s = set_task w (Delivering (eventQueue s)) (s\<lparr>eventQueue := []\<rparr>)"

text \<open>
  One round of the delivery loop. Every \<^verbatim>\<open>invokeXCallback\<close> returns without a call
  when \<^verbatim>\<open>listenerClass_\<close> or \<^verbatim>\<open>listenerObject_\<close> is null; otherwise the listener's
  method for the type of the event is called. After the last event the loop ends.
\<close>

definition invokeCallback :: "event \<Rightarrow> bridge_system \<Rightarrow> bridge_system" where
  "invokeCallback e s =
     (if listenerClass s = nullptr \<or> listenerObject s = nullptr then s
      else s\<lparr>delivered := delivered s @ [e]\<rparr>)"

fun processEvents_deliver :: "nat \<Rightarrow> event list \<Rightarrow> bridge_system \<Rightarrow> bridge_system" where
  "processEvents_deliver w [] s = set_task w AtClearFlag s"
| "processEvents_deliver w (e # es) s = set_task w (Delivering es) (invokeCallback e s)"

text \<open>The store \<^verbatim>\<open>processingScheduled_ = false\<close> that ends the task.\<close>

definition task_clear_flag :: "nat \<Rightarrow> bridge_system \<Rightarrow> bridge_system" where
  "task_clear_flag w s = s\<lparr>processingScheduled := False, pool := worker_done w (pool s)\<rparr>"

text \<open>
  The steps of the system. \<open>Post i e\<close> is thread \<open>i\<close> entering a \<^verbatim>\<open>postXEvent\<close> call
  for the event \<open>e\<close>; \<open>PostPush\<close>, \<open>PostCAS\<close> and \<open>PostSubmit\<close> are the next steps of
  that call; \<open>PoolThread w\<close> is the next step of pool thread \<open>w\<close>. A step that its
  thread cannot take in the state leaves the state as it is.
\<close>

datatype action = Post nat event | PostPush nat | PostCAS nat | PostSubmit nat | PoolThread nat

fun poster_at :: "bridge_system \<Rightarrow> nat \<Rightarrow> post_pc option" where
  "poster_at s i = (if i < length (posters s) then Some (posters s ! i) else None)"

fun pool_thread_at :: "bridge_system \<Rightarrow> nat \<Rightarrow> drain_pc pool_thread option" where
  "pool_thread_at s w =
     (if w < length (poolThreads (pool s)) then Some (poolThreads (pool s) ! w) else None)"

fun step :: "action \<Rightarrow> bridge_system \<Rightarrow> bridge_system" where
  "step (Post i e) s =
     (case poster_at s i of Some Idle \<Rightarrow> post_check i e s | _ \<Rightarrow> s)"
| "step (PostPush i) s =
     (case poster_at s i of Some (Built e) \<Rightarrow> post_push i e s | _ \<Rightarrow> s)"
| "step (PostCAS i) s =
     (case poster_at s i of Some Pushed \<Rightarrow> post_cas i s | _ \<Rightarrow> s)"
| "step (PostSubmit i) s =
     (case poster_at s i of Some Submitting \<Rightarrow> post_submit i s | _ \<Rightarrow> s)"
| "step (PoolThread w) s =
     (case pool_thread_at s w of
        Some AtWait \<Rightarrow> s\<lparr>pool := worker_wait w (pool s)\<rparr>
      | Some (InTask AtProcessEvents) \<Rightarrow> processEvents_entry w s
      | Some (InTask AtSwap) \<Rightarrow> processEvents_swap w s
      | Some (InTask (Delivering es)) \<Rightarrow> processEvents_deliver w es s
      | Some (InTask AtClearFlag) \<Rightarrow> task_clear_flag w s
      | _ \<Rightarrow> s)"

fun run :: "action list \<Rightarrow> bridge_system \<Rightarrow> bridge_system" where
  "run [] s = s"
| "run (a # as) s = run as (step a s)"

text \<open>
  The drain tasks in flight: a poster past a successful compare-and-swap that has not
  yet submitted, the tasks in the queue of the pool, and the tasks running on a pool
  thread.
\<close>

definition in_flight :: "bridge_system \<Rightarrow> nat" where
  "in_flight s =
     length (filter (\<lambda>p. p = Submitting) (posters s))
     + length (taskQueue (pool s))
     + length (filter (\<lambda>t. t \<noteq> AtWait \<and> t \<noteq> Finished) (poolThreads (pool s)))"

text \<open>
  An initialized bridge with a registered listener and a running pool of \<open>nw\<close> threads,
  and \<open>np\<close> threads that post.
\<close>

definition bridge_init :: "nat \<Rightarrow> nat \<Rightarrow> bridge_system" where
  "bridge_init np nw =
     \<lparr>jvm = Ref 0, listenerObject = Ref 1, listenerClass = Ref 2, threadManager = Ref 3,
      eventQueue = [], stopProcessing = False, processingScheduled = False,
      envAvailable = True, pool = initializeThreadPool nw,
      posters = replicate np Idle, delivered = []\<rparr>"

definition is_Post :: "action \<Rightarrow> bool" where
  "is_Post a = (case a of Post i e \<Rightarrow> True | _ \<Rightarrow> False)"

section \<open>socket_manager.cpp\<close>

definition MAX_CLIENTS :: nat where
  "MAX_CLIENTS = 10"

definition BUFFER_SIZE :: nat where
  "BUFFER_SIZE = 4096"

text \<open>
  A \<^verbatim>\<open>ClientConnection\<close>. \<open>handlerThread\<close> is the identifier of the reader thread the
  \<^verbatim>\<open>std::thread\<close> member stands for, \<open>None\<close> when the member is not joinable.
\<close>

record ClientConnection =
  socketFd :: int
  handlerThread :: "nat option"
  isConnected :: bool

text \<open>
  The calls the server makes to the operating system, to thread handles and to the
  bridge, in the order it makes them.
\<close>

datatype call =
    Close int
  | Join nat
  | PostIntEvent string "32 word"
  | PostStringEvent string "byte list"

record socket_manager =
  serverSocket :: int
  isRunning :: bool
  port :: int
  clients :: "ClientConnection list"
  sendQueue :: "byte list list"
  stopSending :: bool
  threadManagerRef :: ptr
  ioBridge :: ptr
  acceptThread :: bool
  sendThread :: bool
  calls :: "call list"

text \<open>
  What \<^verbatim>\<open>socket\<close>, \<^verbatim>\<open>setsockopt\<close>, \<^verbatim>\<open>bind\<close> and \<^verbatim>\<open>listen\<close> return to
  \<^verbatim>\<open>startServer\<close>.
\<close>

record os_results =
  socket_result :: int
  setsockopt_result :: int
  bind_result :: int
  listen_result :: int

definition close_server_socket :: "socket_manager \<Rightarrow> socket_manager" where
  "close_server_socket s = s\<lparr>calls := calls s @ [Close (serverSocket s)], serverSocket := - 1\<rparr>"

definition startServer :: "int \<Rightarrow> os_results \<Rightarrow> socket_manager \<Rightarrow> bool \<times> socket_manager" where
  "startServer p os s =
     (if isRunning s then (False, s)
      else if socket_result os < 0 then (False, s\<lparr>serverSocket := socket_result os\<rparr>)
      else if setsockopt_result os < 0
      then (False, close_server_socket (s\<lparr>serverSocket := socket_result os\<rparr>))
      else if bind_result os < 0
      then (False, close_server_socket (s\<lparr>serverSocket := socket_result os\<rparr>))
      else if listen_result os < 0
      then (False, close_server_socket (s\<lparr>serverSocket := socket_result os\<rparr>))
      else (True, s\<lparr>serverSocket := socket_result os, port := p, isRunning := True,
                     stopSending := False, acceptThread := True, sendThread := True\<rparr>))"

definition getConnectedClientCount :: "socket_manager \<Rightarrow> nat" where
  "getConnectedClientCount s = length (filter isConnected (clients s))"

definition notifyConnectionChange :: "socket_manager \<Rightarrow> socket_manager" where
  "notifyConnectionChange s =
     (if ioBridge s \<noteq> nullptr
      then s\<lparr>calls := calls s @
             [PostIntEvent ''socket_client_count'' (of_nat (getConnectedClientCount s))]\<rparr>
      else s)"

text \<open>
  The loop of \<^verbatim>\<open>removeClient\<close> under \<^verbatim>\<open>clientsMutex_\<close>: the first connection with
  the descriptor is marked disconnected and moved out of the list.
\<close>

fun detach :: "int \<Rightarrow> ClientConnection list \<Rightarrow> ClientConnection option \<times> ClientConnection list" where
  "detach fd [] = (None, [])"
| "detach fd (c # cs) =
     (if socketFd c = fd then (Some (c\<lparr>isConnected := False\<rparr>), cs)
      else (case detach fd cs of (found, cs') \<Rightarrow> (found, c # cs')))"

text \<open>
  \<^verbatim>\<open>std::thread::join\<close> called on the handle of the calling thread itself raises
  \<^verbatim>\<open>std::system_error\<close> (\<^verbatim>\<open>resource_deadlock_would_occur\<close>); \<^verbatim>\<open>removeClient\<close> has no
  handler, so the exception leaves it. \<open>self\<close> is the identifier of the thread that
  calls \<^verbatim>\<open>removeClient\<close>.
\<close>

datatype cpp_exception = system_error

definition removeClient ::
  "nat \<Rightarrow> int \<Rightarrow> socket_manager \<Rightarrow> cpp_exception option \<times> socket_manager" where
  "removeClient self fd s =
     (case detach fd (clients s) of
        (None, cs) \<Rightarrow> (None, s)
      | (Some clientToRemove, cs) \<Rightarrow>
          (let s1 = s\<lparr>clients := cs\<rparr>;
               s2 = (if 0 \<le> socketFd clientToRemove
                     then s1\<lparr>calls := calls s1 @ [Close (socketFd clientToRemove)]\<rparr>
                     else s1)
           in case handlerThread clientToRemove of
                None \<Rightarrow> (None, notifyConnectionChange s2)
              | Some t \<Rightarrow>
                  (if t = self then (Some system_error, s2)
                   else (None, notifyConnectionChange (s2\<lparr>calls := calls s2 @ [Join t]\<rparr>)))))"

text \<open>
  The four bytes of a length prefix on the wire, most significant first
  (\<^verbatim>\<open>htonl\<close> and the bytes of its result in memory order), and the value \<^verbatim>\<open>ntohl\<close>
  gives for four bytes read from the wire.
\<close>

definition htonl_bytes :: "32 word \<Rightarrow> byte list" where
  "htonl_bytes w = [ucast (drop_bit 24 w), ucast (drop_bit 16 w), ucast (drop_bit 8 w), ucast w]"

definition ntohl_bytes :: "byte list \<Rightarrow> 32 word" where
  "ntohl_bytes bs = foldl (\<lambda>acc b. push_bit 8 acc OR ucast b) 0 bs"

text \<open>
  \<^verbatim>\<open>handleClient\<close> reads the bytes its peer sends; \<open>input\<close> is what the peer sends
  before the connection ends. A \<^verbatim>\<open>recv\<close> that finds fewer bytes than the prefix or
  the payload need returns short, then zero or an error: the loop ends.
\<close>

definition forward_message :: "byte list \<Rightarrow> socket_manager \<Rightarrow> socket_manager" where
  "forward_message message s =
     (if ioBridge s \<noteq> nullptr
      then s\<lparr>calls := calls s @ [PostStringEvent ''socket_message'' message]\<rparr>
      else s)"

definition messageLen :: "byte list \<Rightarrow> nat" where
  "messageLen input = unat (ntohl_bytes (take 4 input))"

function handleClient_loop :: "byte list \<Rightarrow> socket_manager \<Rightarrow> socket_manager" where
  "handleClient_loop input s =
     (if isRunning s = False then s
      else if length input < 4 then s
      else if messageLen input = 0 \<or> BUFFER_SIZE < messageLen input then s
      else if length input - 4 < messageLen input then s
      else handleClient_loop (drop (4 + messageLen input) input)
             (forward_message (take (messageLen input) (drop 4 input)) s))"
  by pat_completeness auto
termination
  by (relation "measure (\<lambda>(input, s). length input)") auto

declare handleClient_loop.simps [simp del]

text \<open>
  The thread function \<^verbatim>\<open>handleClient\<close>, run on thread \<open>self\<close>. An exception that
  leaves a thread function ends the process (\<^verbatim>\<open>std::terminate\<close>).
\<close>

datatype thread_end = ThreadReturned | ProcessTerminated

definition handleClient ::
  "nat \<Rightarrow> int \<Rightarrow> byte list \<Rightarrow> socket_manager \<Rightarrow> thread_end \<times> socket_manager" where
  "handleClient self clientSocket input s =
     (case removeClient self clientSocket (handleClient_loop input s) of
        (None, s') \<Rightarrow> (ThreadReturned, s')
      | (Some ex, s') \<Rightarrow> (ProcessTerminated, s'))"

text \<open>
  The sending side of a client socket: the bytes the socket has accepted (\<open>wire\<close>) and
  what its next \<^verbatim>\<open>send\<close> calls do: fail, or accept at most so many bytes. A socket
  with no entry left accepts all it is given.
\<close>

datatype send_result = SendError | SendAccepts nat

record peer =
  wire :: "byte list"
  send_script :: "send_result list"

definition send_call :: "byte list \<Rightarrow> peer \<Rightarrow> int \<times> peer" where
  "send_call data p =
     (case send_script p of
        [] \<Rightarrow> (int (length data), p\<lparr>wire := wire p @ data\<rparr>)
      | SendError # rest \<Rightarrow> (- 1, p\<lparr>send_script := rest\<rparr>)
      | SendAccepts k # rest \<Rightarrow>
          (int (min k (length data)), p\<lparr>wire := wire p @ take k data, send_script := rest\<rparr>))"

text \<open>
  The loop \<^verbatim>\<open>while (totalSent < messageSize)\<close> of \<^verbatim>\<open>sendWorker\<close> on the bytes not
  yet sent; the result is false when a \<^verbatim>\<open>send\<close> returned a negative value.
\<close>

function send_payload :: "byte list \<Rightarrow> peer \<Rightarrow> bool \<times> peer" where
  "send_payload data p =
     (if data = [] then (True, p)
      else if fst (send_call data p) < 0 then (False, snd (send_call data p))
      else send_payload (drop (nat (fst (send_call data p))) data) (snd (send_call data p)))"
  by pat_completeness auto
termination
proof (relation "measure (\<lambda>(data, p). length data + length (send_script p))")
  show "wf (measure (\<lambda>(data, p). length data + length (send_script p)))"
    by simp
next
  fix data :: "byte list" and p :: peer
  assume "data \<noteq> []" and "\<not> fst (send_call data p) < 0"
  then show "((drop (nat (fst (send_call data p))) data, snd (send_call data p)), data, p)
      \<in> measure (\<lambda>(data, p). length data + length (send_script p))"
    by (cases "send_script p"; cases "hd (send_script p)")
       (auto simp: send_call_def split: send_result.splits)
qed

declare send_payload.simps [simp del]

text \<open>The length prefix, then the payload, to one socket.\<close>

definition send_frame :: "byte list \<Rightarrow> peer \<Rightarrow> bool \<times> peer" where
  "send_frame message p =
     (if fst (send_call (htonl_bytes (of_nat (length message))) p) \<noteq> 4
      then (False, snd (send_call (htonl_bytes (of_nat (length message))) p))
      else send_payload message (snd (send_call (htonl_bytes (of_nat (length message))) p)))"

text \<open>
  The loop over the snapshot \<^verbatim>\<open>clientSockets\<close>: the sockets are written one after the
  other, a socket whose write failed is put on \<^verbatim>\<open>toRemove\<close>.
\<close>

fun send_to_sockets ::
  "byte list \<Rightarrow> int list \<Rightarrow> (int \<Rightarrow> peer) \<Rightarrow> int list \<Rightarrow> (int \<Rightarrow> peer) \<times> int list" where
  "send_to_sockets message [] net toRemove = (net, toRemove)"
| "send_to_sockets message (fd # fds) net toRemove =
     send_to_sockets message fds (net(fd := snd (send_frame message (net fd))))
       (if fst (send_frame message (net fd)) then toRemove else toRemove @ [fd])"

definition clientSockets :: "socket_manager \<Rightarrow> int list" where
  "clientSockets s =
     map socketFd (filter (\<lambda>c. isConnected c \<and> 0 \<le> socketFd c) (clients s))"

fun remove_all ::
  "nat \<Rightarrow> int list \<Rightarrow> socket_manager \<Rightarrow> cpp_exception option \<times> socket_manager" where
  "remove_all self [] s = (None, s)"
| "remove_all self (fd # fds) s =
     (case removeClient self fd s of
        (None, s') \<Rightarrow> remove_all self fds s'
      | (Some ex, s') \<Rightarrow> (Some ex, s'))"

text \<open>
  The body of the loop of \<^verbatim>\<open>sendWorker\<close> for one message taken from the queue, on
  thread \<open>self\<close>, and \<^verbatim>\<open>sendToAllClients\<close>, which puts a message into the queue.
\<close>

definition sendWorker_message ::
  "nat \<Rightarrow> byte list \<Rightarrow> (int \<Rightarrow> peer) \<Rightarrow> socket_manager \<Rightarrow>
   cpp_exception option \<times> (int \<Rightarrow> peer) \<times> socket_manager" where
  "sendWorker_message self message net s =
     (case send_to_sockets message (clientSockets s) net [] of
        (net', toRemove) \<Rightarrow>
          (case remove_all self toRemove s of (ex, s') \<Rightarrow> (ex, net', s')))"

definition sendWorker_step ::
  "nat \<Rightarrow> (int \<Rightarrow> peer) \<Rightarrow> socket_manager \<Rightarrow>
   cpp_exception option \<times> (int \<Rightarrow> peer) \<times> socket_manager" where
  "sendWorker_step self net s =
     (case sendQueue s of
        [] \<Rightarrow> (None, net, s)
      | message # rest \<Rightarrow> sendWorker_message self message net (s\<lparr>sendQueue := rest\<rparr>))"

definition sendToAllClients :: "byte list \<Rightarrow> socket_manager \<Rightarrow> socket_manager" where
  "sendToAllClients message s =
     (if isRunning s = False then s else s\<lparr>sendQueue := sendQueue s @ [message]\<rparr>)"

section \<open>States used in the examples\<close>

definition empty_store :: filesystem where
  "empty_store = \<lparr>nodes = (\<lambda>path. None), io_failure = False\<rparr>"

text \<open>A bridge that \<^verbatim>\<open>initialize\<close> has set up and that has no listener yet.\<close>

definition bridge_without_listener :: bridge_system where
  "bridge_without_listener = (bridge_init 1 1)\<lparr>listenerObject := nullptr, listenerClass := nullptr\<rparr>"

text \<open>
  A running server with two clients: socket 5 with reader thread 7, socket 6 with reader
  thread 8.
\<close>

definition two_clients :: socket_manager where
  "two_clients =
     \<lparr>serverSocket = 3, isRunning = True, port = 9000,
      clients = [\<lparr>socketFd = 5, handlerThread = Some 7, isConnected = True\<rparr>,
                 \<lparr>socketFd = 6, handlerThread = Some 8, isConnected = True\<rparr>],
      sendQueue = [], stopSending = False, threadManagerRef = Ref 0, ioBridge = Ref 1,
      acceptThread = True, sendThread = True, calls = []\<rparr>"

text \<open>Sockets that have sent nothing yet and accept all they are given.\<close>

definition idle_peers :: "int \<Rightarrow> peer" where
  "idle_peers = (\<lambda>fd. \<lparr>wire = [], send_script = []\<rparr>)"

text \<open>
  A run of a pool with one thread: two tasks are submitted, the stop flag is set while
  both are queued, the thread takes and finishes the first and the second, finds the
  queue empty and returns, and the shutdown joins it and clears the queue.
\<close>

definition stop_with_two_queued :: "nat pool_action list" where
  "stop_with_two_queued =
     [Submit 1, Submit 2, ShutdownSetStop, Worker 0, Worker 0, Worker 0, Worker 0, Worker 0,
      ShutdownJoinClear]"

text \<open>
  A run of the bridge with one posting thread and one pool thread. The thread posts a
  first event and submits the task; the pool thread takes the task, enters
  \<open>processEvents\<close> and swaps the queue. The thread then posts a second event: it is put
  into the queue, the compare-and-swap finds the flag set and the call returns. The pool
  thread delivers the first event, ends its loop and clears the flag.
\<close>

definition first_event :: event where
  "first_event = E_STRING ''message_response'' [1]"

definition second_event :: event where
  "second_event = E_STRING ''message_response'' [2]"

definition post_during_drain :: "action list" where
  "post_during_drain =
     [Post 0 first_event, PostPush 0, PostCAS 0, PostSubmit 0,
      PoolThread 0, PoolThread 0, PoolThread 0,
      Post 0 second_event, PostPush 0, PostCAS 0,
      PoolThread 0, PoolThread 0, PoolThread 0]"

text \<open>
  A run with two posting threads: both push an event, the first wins the
  compare-and-swap and submits, the pool thread takes the task.
\<close>

definition two_posters :: "action list" where
  "two_posters =
     [Post 0 first_event, PostPush 0, PostCAS 0, Post 1 second_event, PostPush 1, PostCAS 1,
      PostSubmit 0, PoolThread 0]"

section \<open>Invariants used in the proofs\<close>

text \<open>
  The pool before its queue is ever cleared with a task in it: the accepted tasks are
  the started ones followed by the queued ones; once a pool thread has returned (or the
  threads are gone) the pool is stopped and the queue is empty; after a shutdown has
  returned there is no pool thread.
\<close>

definition pool_invariant :: "'t thread_pool \<Rightarrow> bool" where
  "pool_invariant p =
     (accepted p = started p @ taskQueue p
      \<and> discarded p = []
      \<and> (if poolThreads p = [] \<or> Finished \<in> set (poolThreads p)
         then stopPool p \<and> taskQueue p = [] else True)
      \<and> (if shutdown_at p = Returned then poolThreads p = [] else True))"

text \<open>
  At most one drain task is in flight, and while one is in flight the flag is set.
\<close>

definition single_flight :: "bridge_system \<Rightarrow> bool" where
  "single_flight s = (in_flight s \<le> (if processingScheduled s then 1 else 0))"

text \<open>
  No thread is inside a post, every pool thread is at its wait, the task queue is empty
  and the pool is not stopped.
\<close>

definition quiescent :: "bridge_system \<Rightarrow> bool" where
  "quiescent s =
     (list_all (\<lambda>p. p = Idle) (posters s)
      \<and> list_all (\<lambda>t. t = AtWait) (poolThreads (pool s))
      \<and> taskQueue (pool s) = []
      \<and> stopPool (pool s) = False)"

section \<open>Properties of message_encryption.cpp\<close>

lemma mask_63: "(63::32 word) = mask 6" by (simp add: mask_eq_exp_minus_1)
lemma mask_255: "(255::32 word) = mask 8" by (simp add: mask_eq_exp_minus_1)
lemma bit_byte_bound: "bit (a::8 word) n \<Longrightarrow> n < 8" by (auto dest: bit_imp_le_length)

lemma shift8_add_is_or: "push_bit 8 (v::32 word) + ucast (a::8 word) = push_bit 8 v OR ucast a"
  by (rule disjunctive_add) (auto simp: bit_simps dest: bit_byte_bound)

lemma shift6_add_is_or: "push_bit 6 (w::32 word) + (x AND 63) = push_bit 6 w OR (x AND 63)"
  unfolding mask_63 by (rule disjunctive_add) (auto simp: bit_simps)



lemma length_BASE64_CHARS: "length BASE64_CHARS = 64" by (simp add: BASE64_CHARS_def)
lemma distinct_BASE64_CHARS: "distinct BASE64_CHARS" by (simp add: BASE64_CHARS_def)
lemma pad_not_in_BASE64_CHARS: "(of_char CHR ''='' :: byte) \<notin> set BASE64_CHARS" by (simp add: BASE64_CHARS_def)

lemma byte_eqI:
  fixes x y :: "8 word"
  assumes "\<forall>n \<in> {0, 1, 2, 3, 4, 5, 6, 7}. bit x n = bit y n"
  shows "x = y"
proof (rule bit_eqI)
  fix n
  assume "possible_bit TYPE(8 word) n"
  then have "n < 8"
    by (simp add: possible_bit_def)
  then have "n \<in> {0, 1, 2, 3, 4, 5, 6, 7}"
    by simp arith
  with assms show "bit x n = bit y n"
    by blast
qed

lemma bit_byte_high: "8 \<le> n \<Longrightarrow> bit (b::8 word) n = False"
  by (auto dest: bit_byte_bound)

lemma decoded_byte1: "ucast (signed_drop_bit 4 (push_bit 6 (push_bit 6 w + (signed_drop_bit 2 (push_bit 8 v + ucast a) AND 63)) + (signed_drop_bit 4 (push_bit 8 (push_bit 8 v + ucast a) + ucast (b::8 word)) AND 63)) AND (255::32 word)) = (a::8 word)"
  unfolding shift8_add_is_or shift6_add_is_or unfolding mask_63 mask_255
  by (rule byte_eqI) (simp add: bit_simps bit_byte_high)

lemma decoded_byte1_tail: "ucast (signed_drop_bit 4 (push_bit 6 (push_bit 6 w + (signed_drop_bit 2 (push_bit 8 v + ucast a) AND 63)) + (signed_drop_bit 4 (push_bit 8 (push_bit 8 v + ucast a)) AND 63)) AND (255::32 word)) = (a::8 word)"
  unfolding shift8_add_is_or shift6_add_is_or unfolding mask_63 mask_255
  by (rule byte_eqI) (simp add: bit_simps bit_byte_high)

lemma decoded_byte2: "ucast (signed_drop_bit 2 (push_bit 6 (push_bit 6 (push_bit 6 w + (signed_drop_bit 2 (push_bit 8 v + ucast a) AND 63)) + (signed_drop_bit 4 (push_bit 8 (push_bit 8 v + ucast a) + ucast (b::8 word)) AND 63))
     + (signed_drop_bit 6 (push_bit 8 (push_bit 8 (push_bit 8 v + ucast a) + ucast b) + ucast (c::8 word)) AND 63)) AND (255::32 word)) = (b::8 word)"
  unfolding shift8_add_is_or shift6_add_is_or unfolding mask_63 mask_255
  by (rule byte_eqI) (simp add: bit_simps bit_byte_high)

lemma decoded_byte2_tail: "ucast (signed_drop_bit 2 (push_bit 6 (push_bit 6 (push_bit 6 w + (signed_drop_bit 2 (push_bit 8 v + ucast a) AND 63)) + (signed_drop_bit 4 (push_bit 8 (push_bit 8 v + ucast a) + ucast (b::8 word)) AND 63))
     + (signed_drop_bit 6 (push_bit 8 (push_bit 8 (push_bit 8 v + ucast a) + ucast b)) AND 63)) AND (255::32 word)) = (b::8 word)"
  unfolding shift8_add_is_or shift6_add_is_or unfolding mask_63 mask_255
  by (rule byte_eqI) (simp add: bit_simps bit_byte_high)

lemma decoded_byte3: "ucast (signed_drop_bit 0 (push_bit 6 (push_bit 6 (push_bit 6 (push_bit 6 w + (signed_drop_bit 2 (push_bit 8 v + ucast a) AND 63)) + (signed_drop_bit 4 (push_bit 8 (push_bit 8 v + ucast a) + ucast (b::8 word)) AND 63))
     + (signed_drop_bit 6 (push_bit 8 (push_bit 8 (push_bit 8 v + ucast a) + ucast b) + ucast (c::8 word)) AND 63))
     + (signed_drop_bit 0 (push_bit 8 (push_bit 8 (push_bit 8 v + ucast a) + ucast b) + ucast (c::8 word)) AND 63)) AND (255::32 word)) = (c::8 word)"
  unfolding shift8_add_is_or shift6_add_is_or unfolding mask_63 mask_255
  by (rule byte_eqI) (simp add: bit_simps bit_byte_high)


lemma base64_emit_2: "base64_emit val 2 out = (out @ [BASE64_CHARS ! unat (signed_drop_bit 2 val AND 63)], - 4)"
  by (subst base64_emit.simps, subst base64_emit.simps) simp

lemma base64_emit_4: "base64_emit val 4 out = (out @ [BASE64_CHARS ! unat (signed_drop_bit 4 val AND 63)], - 2)"
  by (subst base64_emit.simps, subst base64_emit.simps) simp

lemma base64_emit_6: "base64_emit val 6 out =
  (out @ [BASE64_CHARS ! unat (signed_drop_bit 6 val AND 63), BASE64_CHARS ! unat (signed_drop_bit 0 val AND 63)], - 6)"
  by (subst base64_emit.simps, subst base64_emit.simps, subst base64_emit.simps) simp

lemma base64_find_table: "k < 64 \<Longrightarrow> i \<le> k \<Longrightarrow> base64_find (BASE64_CHARS ! k) i = Some k"
proof (induction "k - i" arbitrary: i)
  case 0
  then have "i = k" by simp
  with 0 show ?case by (subst base64_find.simps) simp
next
  case (Suc d)
  then have lt: "i < k" and d: "d = k - Suc i" by simp_all
  from lt Suc.prems have "BASE64_CHARS ! i \<noteq> BASE64_CHARS ! k"
    using distinct_BASE64_CHARS length_BASE64_CHARS by (simp add: nth_eq_iff_index_eq)
  moreover have "base64_find (BASE64_CHARS ! k) (Suc i) = Some k"
    using Suc.hyps(1) [OF d] Suc.prems lt by simp
  ultimately show ?case using lt Suc.prems by (subst base64_find.simps) simp
qed

lemma unat_sextet: "unat ((x::32 word) AND 63) < 64"
proof -
  have "unat (x AND 63) \<le> unat (63 :: 32 word)"
    by (rule word_and_le1 [THEN word_le_nat_alt [THEN iffD1]])
  then show ?thesis by simp
qed

lemma table_char_not_pad: "k < 64 \<Longrightarrow> BASE64_CHARS ! k \<noteq> of_char CHR ''=''"
  using pad_not_in_BASE64_CHARS length_BASE64_CHARS by (metis nth_mem)

lemma decode_table_char:
  "base64Decode_loop (BASE64_CHARS ! unat ((x::32 word) AND 63) # cs) w valb dout =
     (if 0 \<le> valb + 6
      then base64Decode_loop cs (push_bit 6 w + (x AND 63)) (valb + 6 - 8)
             (dout @ [ucast (signed_drop_bit (nat (valb + 6)) (push_bit 6 w + (x AND 63)) AND 255)])
      else base64Decode_loop cs (push_bit 6 w + (x AND 63)) (valb + 6) dout)"
  using unat_sextet [of x] by (simp add: base64_find_table table_char_not_pad Let_def del: of_char_Char)


lemma base64_pad_full: "length out mod 4 = 0 \<Longrightarrow> base64_pad out = out"
  by (subst base64_pad.simps) simp

lemma length_mod_4_append: "length out mod 4 = 0 \<Longrightarrow> length (out @ ys) mod 4 = length ys mod 4"
  by (simp add: mod_add_left_eq [symmetric] del: mod_add_left_eq)

lemma base64_pad_3: "length out mod 4 = 0 \<Longrightarrow> base64_pad (out @ [x, y, z]) = out @ [x, y, z, of_char CHR ''='']"
proof -
  assume a: "length out mod 4 = 0"
  have l3: "length (out @ [x, y, z]) mod 4 = 3" using length_mod_4_append [OF a, of "[x, y, z]"] by simp
  have l4: "length (out @ [x, y, z, of_char CHR ''='']) mod 4 = 0"
    using length_mod_4_append [OF a, of "[x, y, z, of_char CHR ''='']"] by simp
  have "base64_pad (out @ [x, y, z]) = base64_pad ((out @ [x, y, z]) @ [of_char CHR ''=''])"
    using l3 by (subst base64_pad.simps) simp
  also have "\<dots> = out @ [x, y, z, of_char CHR ''='']"
    using base64_pad_full [OF l4] by simp
  finally show ?thesis .
qed

lemma base64_pad_2: "length out mod 4 = 0 \<Longrightarrow>
   base64_pad (out @ [x, y]) = out @ [x, y, of_char CHR ''='', of_char CHR ''='']"
proof -
  assume a: "length out mod 4 = 0"
  have l2: "length (out @ [x, y]) mod 4 = 2" using length_mod_4_append [OF a, of "[x, y]"] by simp
  have "base64_pad (out @ [x, y]) = base64_pad ((out @ [x, y]) @ [of_char CHR ''=''])"
    using l2 by (subst base64_pad.simps) simp
  also have "\<dots> = base64_pad (out @ [x, y, of_char CHR ''=''])" by simp
  also have "\<dots> = out @ [x, y, of_char CHR ''='', of_char CHR ''='']"
    by (rule base64_pad_3 [OF a])
  finally show ?thesis .
qed


lemma encode_tail_1: "base64Encode_loop [a] v (- 6) out =
   (push_bit 8 v + ucast a, - 4, out @ [BASE64_CHARS ! unat (signed_drop_bit 2 (push_bit 8 v + ucast a) AND 63)])"
  by (simp add: base64_emit_2 Let_def)

lemma encode_tail_2: "base64Encode_loop [a, b] v (- 6) out =
   (push_bit 8 (push_bit 8 v + ucast a) + ucast b, - 2,
    out @ [BASE64_CHARS ! unat (signed_drop_bit 2 (push_bit 8 v + ucast a) AND 63),
           BASE64_CHARS ! unat (signed_drop_bit 4 (push_bit 8 (push_bit 8 v + ucast a) + ucast b) AND 63)])"
  by (simp add: base64_emit_2 base64_emit_4 Let_def)

lemma encode_group: "base64Encode_loop (a # b # c # rest) v (- 6) out =
   base64Encode_loop rest (push_bit 8 (push_bit 8 (push_bit 8 v + ucast a) + ucast b) + ucast c) (- 6)
    (out @ [BASE64_CHARS ! unat (signed_drop_bit 2 (push_bit 8 v + ucast a) AND 63),
           BASE64_CHARS ! unat (signed_drop_bit 4 (push_bit 8 (push_bit 8 v + ucast a) + ucast b) AND 63),
           BASE64_CHARS ! unat (signed_drop_bit 6 (push_bit 8 (push_bit 8 (push_bit 8 v + ucast a) + ucast b) + ucast c) AND 63),
           BASE64_CHARS ! unat (signed_drop_bit 0 (push_bit 8 (push_bit 8 (push_bit 8 v + ucast a) + ucast b) + ucast c) AND 63)])"
  by (simp add: base64_emit_2 base64_emit_4 base64_emit_6 Let_def)

lemma decode_char_0:
  "base64Decode_loop (BASE64_CHARS ! unat ((x::32 word) AND 63) # cs) w (- 8) dout =
     base64Decode_loop cs (push_bit 6 w + (x AND 63)) (- 2) dout"
  by (subst decode_table_char) simp

lemma decode_char_1:
  "base64Decode_loop (BASE64_CHARS ! unat ((x::32 word) AND 63) # cs) w (- 2) dout =
     base64Decode_loop cs (push_bit 6 w + (x AND 63)) (- 4)
       (dout @ [ucast (signed_drop_bit 4 (push_bit 6 w + (x AND 63)) AND 255)])"
  by (subst decode_table_char) simp

lemma decode_char_2:
  "base64Decode_loop (BASE64_CHARS ! unat ((x::32 word) AND 63) # cs) w (- 4) dout =
     base64Decode_loop cs (push_bit 6 w + (x AND 63)) (- 6)
       (dout @ [ucast (signed_drop_bit 2 (push_bit 6 w + (x AND 63)) AND 255)])"
  by (subst decode_table_char) simp

lemma decode_char_3:
  "base64Decode_loop (BASE64_CHARS ! unat ((x::32 word) AND 63) # cs) w (- 6) dout =
     base64Decode_loop cs (push_bit 6 w + (x AND 63)) (- 8)
       (dout @ [ucast (signed_drop_bit 0 (push_bit 6 w + (x AND 63)) AND 255)])"
  by (subst decode_table_char) simp

lemma decode_group:
  "base64Decode_loop
     (BASE64_CHARS ! unat (signed_drop_bit 2 (push_bit 8 v + ucast a) AND 63) #
      BASE64_CHARS ! unat (signed_drop_bit 4 (push_bit 8 (push_bit 8 v + ucast a) + ucast b) AND 63) #
      BASE64_CHARS ! unat (signed_drop_bit 6 (push_bit 8 (push_bit 8 (push_bit 8 v + ucast a) + ucast b) + ucast c) AND 63) #
      BASE64_CHARS ! unat (signed_drop_bit 0 (push_bit 8 (push_bit 8 (push_bit 8 v + ucast a) + ucast b) + ucast c) AND 63) # ys)
     w (- 8) dout =
   base64Decode_loop ys
     (push_bit 6 (push_bit 6 (push_bit 6 (push_bit 6 w + (signed_drop_bit 2 (push_bit 8 v + ucast a) AND 63)) + (signed_drop_bit 4 (push_bit 8 (push_bit 8 v + ucast a) + ucast (b::8 word)) AND 63))
     + (signed_drop_bit 6 (push_bit 8 (push_bit 8 (push_bit 8 v + ucast a) + ucast b) + ucast (c::8 word)) AND 63))
     + (signed_drop_bit 0 (push_bit 8 (push_bit 8 (push_bit 8 v + ucast a) + ucast b) + ucast (c::8 word)) AND 63))
     (- 8) (dout @ [a, b, c])"
  by (simp only: decode_char_0 decode_char_1 decode_char_2 decode_char_3 decoded_byte1 decoded_byte2 decoded_byte3 append_assoc append.simps)


lemma decode_pad: "base64Decode_loop (of_char CHR ''='' # cs) w valb dout = dout"
  by simp

lemma decode_tail_1:
  "base64Decode_loop
     [BASE64_CHARS ! unat (signed_drop_bit 2 (push_bit 8 (v::32 word) + ucast a) AND 63),
      BASE64_CHARS ! unat (signed_drop_bit 4 (push_bit 8 (push_bit 8 v + ucast a)) AND 63),
      of_char CHR ''='', of_char CHR ''='']
     w (- 8) dout = dout @ [a]"
  by (simp only: decode_char_0 decode_char_1 decoded_byte1_tail decode_pad)

lemma decode_tail_2:
  "base64Decode_loop
     [BASE64_CHARS ! unat (signed_drop_bit 2 (push_bit 8 (v::32 word) + ucast a) AND 63),
      BASE64_CHARS ! unat (signed_drop_bit 4 (push_bit 8 (push_bit 8 v + ucast a) + ucast b) AND 63),
      BASE64_CHARS ! unat (signed_drop_bit 6 (push_bit 8 (push_bit 8 (push_bit 8 v + ucast a) + ucast b)) AND 63),
      of_char CHR ''='']
     w (- 8) dout = dout @ [a, b]"
  by (simp only: decode_char_0 decode_char_1 decode_char_2 decoded_byte1 decoded_byte2_tail decode_pad append_assoc append.simps)

lemma list_shape3:
  obtains "xs = []" | a where "xs = [a]" | a b where "xs = [a, b]"
  | a b c rest where "xs = a # b # c # rest"
  by (metis list.exhaust)

lemma base64_roundtrip_from:
  "length out mod 4 = 0 \<Longrightarrow>
   \<exists>ys. (case base64Encode_loop xs v (- 6) out of
          (val, valb, output) \<Rightarrow>
            base64_pad
              (if - 6 < valb
               then output @
                 [BASE64_CHARS ! unat (signed_drop_bit (nat (valb + 8)) (push_bit 8 val) AND 0x3F)]
               else output)) = out @ ys
      \<and> (\<forall>w dout. base64Decode_loop ys w (- 8) dout = dout @ xs)"
proof (induction xs arbitrary: v out rule: length_induct)
  case (1 xs)
  show ?case
  proof (cases xs rule: list_shape3)
    case 1
    with "1.prems" show ?thesis by (simp add: base64_pad_full)
  next
    case (2 a)
    let ?ys = "[BASE64_CHARS ! unat (signed_drop_bit 2 (push_bit 8 v + ucast a) AND 63),
      BASE64_CHARS ! unat (signed_drop_bit 4 (push_bit 8 (push_bit 8 v + ucast a)) AND 63),
      of_char CHR ''='', of_char CHR ''='']"
    have "\<And>w dout. base64Decode_loop ?ys w (- 8) dout = dout @ xs"
      unfolding 2 by (rule decode_tail_1)
    then show ?thesis
      unfolding 2 encode_tail_1 using base64_pad_2 [OF "1.prems"]
      by (intro exI [of _ ?ys]) (simp del: of_char_Char)
  next
    case (3 a b)
    let ?ys = "[BASE64_CHARS ! unat (signed_drop_bit 2 (push_bit 8 v + ucast a) AND 63),
      BASE64_CHARS ! unat (signed_drop_bit 4 (push_bit 8 (push_bit 8 v + ucast a) + ucast b) AND 63),
      BASE64_CHARS ! unat (signed_drop_bit 6 (push_bit 8 (push_bit 8 (push_bit 8 v + ucast a) + ucast b)) AND 63),
      of_char CHR ''='']"
    have "\<And>w dout. base64Decode_loop ?ys w (- 8) dout = dout @ xs"
      unfolding 3 by (rule decode_tail_2)
    then show ?thesis
      unfolding 3 encode_tail_2 using base64_pad_3 [OF "1.prems"]
      by (intro exI [of _ ?ys]) (simp del: of_char_Char)
  next
    case (4 a b c rest)
    let ?q = "[BASE64_CHARS ! unat (signed_drop_bit 2 (push_bit 8 v + ucast a) AND 63),
           BASE64_CHARS ! unat (signed_drop_bit 4 (push_bit 8 (push_bit 8 v + ucast a) + ucast b) AND 63),
           BASE64_CHARS ! unat (signed_drop_bit 6 (push_bit 8 (push_bit 8 (push_bit 8 v + ucast a) + ucast b) + ucast c) AND 63),
           BASE64_CHARS ! unat (signed_drop_bit 0 (push_bit 8 (push_bit 8 (push_bit 8 v + ucast a) + ucast b) + ucast c) AND 63)]"
    let ?v3 = "push_bit 8 (push_bit 8 (push_bit 8 v + ucast a) + ucast b) + ucast c"
    have len: "length (out @ ?q) mod 4 = 0"
      using length_mod_4_append [OF "1.prems", of ?q] by simp
    have shorter: "length rest < length xs"
      using 4 by simp
    from "1.IH" [rule_format, OF shorter len, of ?v3]
    obtain ys where
      enc: "(case base64Encode_loop rest ?v3 (- 6) (out @ ?q) of
          (val, valb, output) \<Rightarrow>
            base64_pad
              (if - 6 < valb
               then output @
                 [BASE64_CHARS ! unat (signed_drop_bit (nat (valb + 8)) (push_bit 8 val) AND 0x3F)]
               else output)) = (out @ ?q) @ ys"
      and dec: "\<And>w dout. base64Decode_loop ys w (- 8) dout = dout @ rest"
      by blast
    have "\<And>w dout. base64Decode_loop (?q @ ys) w (- 8) dout = dout @ xs"
      unfolding 4 by (simp only: append.simps decode_group dec) simp
    with enc show ?thesis
      unfolding 4 encode_group by (intro exI [of _ "?q @ ys"]) simp
  qed
qed

lemma base64_roundtrip: "base64Decode (base64Encode xs) = xs"
proof -
  from base64_roundtrip_from [of "[]" xs 0] obtain ys where
    "base64Encode xs = ys" and "\<And>w dout. base64Decode_loop ys w (- 8) dout = dout @ xs"
    by (auto simp: base64Encode_def Let_def split: prod.splits)
  then show ?thesis by (simp add: base64Decode_def)
qed

lemma length_ENCRYPTION_KEY: "length ENCRYPTION_KEY = 20" by (simp add: ENCRYPTION_KEY_def)

lemma xor_twice: "xor_with_key (xor_with_key m i) i = m"
  by (induction m arbitrary: i) (simp_all add: bit.xor_self [simplified] xor.assoc)

lemma xor_nonempty: "m \<noteq> [] \<Longrightarrow> xor_with_key m i \<noteq> []"
  by (cases m) simp_all

lemma base64Encode_nonempty: "xs \<noteq> [] \<Longrightarrow> base64Encode xs \<noteq> []"
proof
  assume ne: "xs \<noteq> []" and e: "base64Encode xs = []"
  have "base64Decode (base64Encode xs) = []"
    unfolding e by (simp add: base64Decode_def)
  with ne show False by (simp add: base64_roundtrip)
qed

text \<open>
  Claim C8. The obfuscation routine is reversible: for every byte string \<open>s\<close> (the empty
  string and strings of arbitrary byte values included), \<open>decryptMessage\<close> applied to
  \<open>encryptMessage s\<close> gives back \<open>s\<close>.
\<close>

theorem decrypt_encrypt: "decryptMessage (encryptMessage s) = s"
  by (simp add: decryptMessage_def encryptMessage_def base64_roundtrip xor_twice
      base64Encode_nonempty xor_nonempty)

text \<open>The encoder and the decoder on the usual test vectors, and one obfuscated string.\<close>

lemma base64Encode_examples:
  "base64Encode (map of_char ''Man'') = map of_char ''TWFu''"
  "base64Encode (map of_char ''Ma'') = map of_char ''TWE=''"
  "base64Encode (map of_char ''M'') = map of_char ''TQ==''"
  "base64Decode (map of_char ''TWE='') = map of_char ''Ma''"
  by code_simp+

lemma encryptMessage_example:
  "encryptMessage (map of_char ''hi'') = map of_char ''LgU=''"
  by code_simp

section \<open>Properties of blob_storage.cpp\<close>

lemma slash_positions_example: "slash_positions ''/data/app'' = [5]"
  by code_simp

text \<open>
  The model stores what it is given: three bytes saved under a path whose directories do
  not exist yet are what a later load returns.
\<close>

lemma save_then_load:
  "loadMessages ''/data/app/m.bin'' []
     (snd (saveMessages ''/data/app/m.bin'' (Some [1, 2, 3]) 3 empty_store)) = (True, [1, 2, 3])"
  by code_simp

text \<open>
  Claim C10. \<open>saveMessages\<close> returns false when \<open>data\<close> is null or \<open>length\<close> is zero, and
  the file system is as it was before the call: an empty blob is never stored. A load
  from a path that does not exist succeeds with the empty vector.
\<close>

theorem saveMessages_rejects_empty:
  "(data = None \<or> len = 0 \<longrightarrow> saveMessages filePath data len fs = (False, fs))
   \<and> (nodes fs filePath = None \<longrightarrow> loadMessages filePath buffer fs = (True, []))"
  by (simp add: saveMessages_def loadMessages_def)

theorem saveMessages_rejects_empty_witness:
  "saveMessages ''/data/app/m.bin'' (Some [1, 2, 3]) 0 empty_store = (False, empty_store)
   \<and> saveMessages ''/data/app/m.bin'' None 3 empty_store = (False, empty_store)
   \<and> loadMessages ''/data/app/m.bin'' [7] empty_store = (True, [])"
  using saveMessages_rejects_empty [of "Some [1, 2, 3]" 0 "''/data/app/m.bin''" empty_store "[7]"]
    saveMessages_rejects_empty [of None 3 "''/data/app/m.bin''" empty_store "[7]"]
  by (simp add: empty_store_def)

section \<open>Properties of io_bridge.cpp: posting without a listener\<close>

text \<open>
  Claim C9. A \<^verbatim>\<open>postXEvent\<close> call made while the bridge is not initialized or has no
  listener returns at once and leaves the whole state as it was: nothing is put into
  the queue, so nothing of the call is left for a listener registered later. A thread
  that is not inside a call can take every step of the call, the state stays the same.
\<close>

theorem post_without_listener_is_dropped:
  assumes "\<not> isInitialized s"
  shows "postStringEvent i eventId bytes s = s
    \<and> postIntEvent i eventId n s = s
    \<and> postFloatEvent i eventId f s = s
    \<and> postDoubleEvent i eventId d s = s
    \<and> postBooleanEvent i eventId b s = s
    \<and> postByteArrayEvent i eventId bytes len s = s
    \<and> step (Post i e) s = s
    \<and> (poster_at s i = Some Idle \<longrightarrow>
         run [Post i e, PostPush i, PostCAS i, PostSubmit i] s = s)"
  using assms
  by (simp add: postStringEvent_def postIntEvent_def postFloatEvent_def postDoubleEvent_def
      postBooleanEvent_def postByteArrayEvent_def post_check_def
      split: option.splits post_pc.splits)

lemma bridge_without_listener_not_initialized: "\<not> isInitialized bridge_without_listener"
  by (simp add: isInitialized_def bridge_without_listener_def)

theorem post_without_listener_is_dropped_witness:
  "postStringEvent 0 ''socket_message'' [104, 105] bridge_without_listener = bridge_without_listener
   \<and> postIntEvent 0 ''socket_client_count'' 3 bridge_without_listener = bridge_without_listener
   \<and> run [Post 0 (E_INT ''socket_client_count'' 3), PostPush 0, PostCAS 0, PostSubmit 0]
        bridge_without_listener = bridge_without_listener
   \<and> eventQueue bridge_without_listener = []"
  using post_without_listener_is_dropped [OF bridge_without_listener_not_initialized,
      where i = 0 and eventId = "''socket_message''" and bytes = "[104, 105]"
      and e = "E_INT ''socket_client_count'' 3"]
    post_without_listener_is_dropped [OF bridge_without_listener_not_initialized,
      where i = 0 and eventId = "''socket_client_count''" and n = 3]
  by (simp add: bridge_without_listener_def bridge_init_def initializeThreadPool_def)

section \<open>Properties of thread_manager.cpp: shutdown of the pool\<close>

lemma in_set_update: "x \<in> set (xs[i := y]) \<Longrightarrow> x = y \<or> x \<in> set xs"
  using set_update_subset_insert [of xs i y] by auto

lemma pool_invariant_init: "0 < n \<Longrightarrow> pool_invariant (initializeThreadPool n)"
  by (auto simp: pool_invariant_def initializeThreadPool_def)

lemma pool_invariant_submit: "pool_invariant p \<Longrightarrow> pool_invariant (submitTask task p)"
  by (auto simp: pool_invariant_def submitTask_def split: if_splits)

lemma pool_invariant_wait:
  "pool_invariant p \<Longrightarrow> w < length (poolThreads p) \<Longrightarrow> pool_invariant (worker_wait w p)"
  by (auto simp: pool_invariant_def worker_wait_def set_update_memI
      split: if_splits dest: in_set_update)

lemma pool_invariant_done:
  "pool_invariant p \<Longrightarrow> w < length (poolThreads p) \<Longrightarrow> pool_invariant (worker_done w p)"
  by (auto simp: pool_invariant_def worker_done_def split: if_splits dest: in_set_update)

lemma pool_invariant_set_stop: "pool_invariant p \<Longrightarrow> pool_invariant (shutdown_set_stop p)"
  by (auto simp: pool_invariant_def shutdown_set_stop_def split: if_splits)

lemma all_Finished: "list_all (\<lambda>t. t = Finished) ts \<Longrightarrow> ts = [] \<or> Finished \<in> set ts"
  by (cases ts) auto

lemma pool_invariant_join_clear:
  "pool_invariant p \<Longrightarrow> pool_invariant (shutdown_join_clear p)"
  by (auto simp: pool_invariant_def shutdown_join_clear_def split: if_splits
      dest: all_Finished)

lemma pool_invariant_step: "pool_invariant p \<Longrightarrow> pool_invariant (pool_step a p)"
  by (cases a)
     (auto simp: pool_invariant_submit pool_invariant_wait pool_invariant_done
       pool_invariant_set_stop pool_invariant_join_clear split: pool_thread.splits)

lemma pool_invariant_run: "pool_invariant p \<Longrightarrow> pool_invariant (pool_run as p)"
  by (induction as arbitrary: p) (simp_all add: pool_invariant_step)

text \<open>
  Claim C3, as the code has it. With at least one pool thread, the threads go on taking
  tasks from the queue after the stop flag is set and return only when the queue is
  empty: when \<open>shutdownThreadPool\<close> has returned, every task that \<open>submitTask\<close> accepted
  has been started, the queue is empty, and the clearing of the queue discarded nothing.
\<close>

theorem shutdown_runs_queued_tasks:
  assumes "0 < n" and "shutdown_at (pool_run as (initializeThreadPool n)) = Returned"
  shows "started (pool_run as (initializeThreadPool n))
      = accepted (pool_run as (initializeThreadPool n))
    \<and> discarded (pool_run as (initializeThreadPool n)) = []
    \<and> taskQueue (pool_run as (initializeThreadPool n)) = []"
  using pool_invariant_run [OF pool_invariant_init [OF assms(1)], of as] assms(2)
  by (simp add: pool_invariant_def)

theorem shutdown_runs_queued_tasks_witness:
  "shutdown_at (pool_run stop_with_two_queued (initializeThreadPool 1)) = Returned
   \<and> started (pool_run stop_with_two_queued (initializeThreadPool 1)) = [1, 2]
   \<and> accepted (pool_run stop_with_two_queued (initializeThreadPool 1)) = [1, 2]"
  using shutdown_runs_queued_tasks [of 1 stop_with_two_queued]
  by (simp add: stop_with_two_queued_def initializeThreadPool_def submitTask_def
      shutdown_set_stop_def worker_wait_def worker_done_def shutdown_join_clear_def)

text \<open>
  The claim as it is written fails. Two tasks are queued and no thread has started one
  when the stop flag is set; the one pool thread then runs both before it returns, and
  the shutdown discards nothing.
\<close>

theorem queued_tasks_run_after_stop:
  "shutdown_at (pool_run stop_with_two_queued (initializeThreadPool 1)) = Returned
   \<and> taskQueue (pool_run (take 3 stop_with_two_queued) (initializeThreadPool 1)) = [1, 2]
   \<and> startedBeforeStop (pool_run stop_with_two_queued (initializeThreadPool 1)) = []
   \<and> started (pool_run stop_with_two_queued (initializeThreadPool 1)) = [1, 2]
   \<and> discarded (pool_run stop_with_two_queued (initializeThreadPool 1)) = []
   \<and> set (started (pool_run stop_with_two_queued (initializeThreadPool 1)))
     \<noteq> set (startedBeforeStop (pool_run stop_with_two_queued (initializeThreadPool 1)))"
  by (simp add: stop_with_two_queued_def initializeThreadPool_def submitTask_def
      shutdown_set_stop_def worker_wait_def worker_done_def shutdown_join_clear_def)

section \<open>Properties of io_bridge.cpp: single flight\<close>

lemma count_update:
  "i < length xs \<Longrightarrow>
     length (filter P (xs[i := y])) + (if P (xs ! i) then 1 else 0)
       = length (filter P xs) + (if P y then 1 else 0)"
proof (induction xs arbitrary: i)
  case Nil
  then show ?case by simp
next
  case (Cons x xs)
  then show ?case by (cases i) auto
qed

lemma count_update_same:
  "i < length xs \<Longrightarrow> P (xs ! i) = P y \<Longrightarrow>
     length (filter P (xs[i := y])) = length (filter P xs)"
  using count_update [of i xs P y] by (simp split: if_splits)

lemma count_update_gain:
  "i < length xs \<Longrightarrow> \<not> P (xs ! i) \<Longrightarrow> P y \<Longrightarrow>
     length (filter P (xs[i := y])) = Suc (length (filter P xs))"
  using count_update [of i xs P y] by simp

lemma count_update_loss:
  "i < length xs \<Longrightarrow> P (xs ! i) \<Longrightarrow> \<not> P y \<Longrightarrow>
     Suc (length (filter P (xs[i := y]))) = length (filter P xs)"
  using count_update [of i xs P y] by simp

text \<open>What each step does to the number of drain tasks in flight and to the flag.\<close>

lemma in_flight_post_check:
  "i < length (posters s) \<Longrightarrow> posters s ! i = Idle \<Longrightarrow>
     in_flight (post_check i e s) = in_flight s"
  "processingScheduled (post_check i e s) = processingScheduled s"
  by (simp_all add: in_flight_def post_check_def count_update_same)

lemma in_flight_post_push:
  "i < length (posters s) \<Longrightarrow> posters s ! i = Built e \<Longrightarrow>
     in_flight (post_push i e s) = in_flight s"
  "processingScheduled (post_push i e s) = processingScheduled s"
  by (simp_all add: in_flight_def post_push_def count_update_same)

lemma in_flight_post_cas:
  "i < length (posters s) \<Longrightarrow> posters s ! i = Pushed \<Longrightarrow>
     in_flight (post_cas i s) =
       (if threadManager s \<noteq> nullptr \<and> processingScheduled s = False
        then Suc (in_flight s) else in_flight s)"
  "processingScheduled (post_cas i s) = (processingScheduled s \<or> threadManager s \<noteq> nullptr)"
  by (simp_all add: in_flight_def post_cas_def count_update_same count_update_gain)

lemma in_flight_post_submit:
  assumes "i < length (posters s)" and "posters s ! i = Submitting"
  shows "in_flight (post_submit i s) \<le> in_flight s"
    and "processingScheduled (post_submit i s) = processingScheduled s"
proof -
  have "Suc (length (filter (\<lambda>p. p = Submitting) ((posters s)[i := Idle])))
      = length (filter (\<lambda>p. p = Submitting) (posters s))"
    using assms by (simp add: count_update_loss)
  then show "in_flight (post_submit i s) \<le> in_flight s"
    by (simp add: in_flight_def post_submit_def submitTask_def)
  show "processingScheduled (post_submit i s) = processingScheduled s"
    by (simp add: post_submit_def)
qed

lemma in_flight_wait:
  assumes "w < length (poolThreads (pool s))" and "poolThreads (pool s) ! w = AtWait"
  shows "in_flight (s\<lparr>pool := worker_wait w (pool s)\<rparr>) = in_flight s"
proof -
  let ?busy = "\<lambda>t :: drain_pc pool_thread. t \<noteq> AtWait \<and> t \<noteq> Finished"
  have leave: "length (filter ?busy ((poolThreads (pool s))[w := Finished]))
      = length (filter ?busy (poolThreads (pool s)))"
    using assms by (simp add: count_update_same)
  have take: "length (filter ?busy ((poolThreads (pool s))[w := InTask t]))
      = Suc (length (filter ?busy (poolThreads (pool s))))" for t
    using assms by (simp add: count_update_gain)
  have queue: "taskQueue (pool s) \<noteq> [] \<Longrightarrow>
      Suc (length (tl (taskQueue (pool s)))) = length (taskQueue (pool s))"
    by (cases "taskQueue (pool s)") simp_all
  show ?thesis
  proof (cases "taskQueue (pool s) = []")
    case True
    with leave show ?thesis
      by (simp add: in_flight_def worker_wait_def)
  next
    case False
    with take queue [OF False] show ?thesis
      by (simp add: in_flight_def worker_wait_def)
  qed
qed

lemma in_flight_set_task:
  assumes "w < length (poolThreads (pool s))" and "poolThreads (pool s) ! w = InTask pc"
  shows "in_flight (set_task w pc' s) = in_flight s"
    and "processingScheduled (set_task w pc' s) = processingScheduled s"
  using assms by (simp_all add: in_flight_def set_task_def count_update_same)

lemma in_flight_unchanged:
  "in_flight (s\<lparr>eventQueue := q\<rparr>) = in_flight s"
  "in_flight (invokeCallback e s) = in_flight s"
  "processingScheduled (invokeCallback e s) = processingScheduled s"
  "pool (invokeCallback e s) = pool s"
  by (simp_all add: in_flight_def invokeCallback_def)

lemma in_flight_clear:
  assumes "w < length (poolThreads (pool s))" and "poolThreads (pool s) ! w = InTask pc"
  shows "Suc (in_flight (task_clear_flag w s)) = in_flight s"
proof -
  have "Suc (length (filter (\<lambda>t. t \<noteq> AtWait \<and> t \<noteq> Finished)
        ((poolThreads (pool s))[w := AtWait])))
      = length (filter (\<lambda>t. t \<noteq> AtWait \<and> t \<noteq> Finished) (poolThreads (pool s)))"
    using assms by (simp add: count_update_loss)
  then show ?thesis
    by (simp add: in_flight_def task_clear_flag_def worker_done_def)
qed

lemma single_flight_post_check:
  "single_flight s \<Longrightarrow> i < length (posters s) \<Longrightarrow> posters s ! i = Idle \<Longrightarrow>
     single_flight (post_check i e s)"
  by (simp add: single_flight_def in_flight_post_check)

lemma single_flight_post_push:
  "single_flight s \<Longrightarrow> i < length (posters s) \<Longrightarrow> posters s ! i = Built e \<Longrightarrow>
     single_flight (post_push i e s)"
  by (simp add: single_flight_def in_flight_post_push)

lemma single_flight_post_cas:
  "single_flight s \<Longrightarrow> i < length (posters s) \<Longrightarrow> posters s ! i = Pushed \<Longrightarrow>
     single_flight (post_cas i s)"
  by (simp add: single_flight_def in_flight_post_cas split: if_splits)

lemma single_flight_post_submit:
  assumes "single_flight s" and "i < length (posters s)" and "posters s ! i = Submitting"
  shows "single_flight (post_submit i s)"
  using assms(1) in_flight_post_submit [OF assms(2, 3)]
  by (simp add: single_flight_def split: if_splits)

lemma single_flight_wait:
  assumes "single_flight s" and "w < length (poolThreads (pool s))"
    and "poolThreads (pool s) ! w = AtWait"
  shows "single_flight (s\<lparr>pool := worker_wait w (pool s)\<rparr>)"
  using assms(1) in_flight_wait [OF assms(2, 3)]
  by (simp add: single_flight_def)

lemma single_flight_set_task:
  assumes "single_flight s" and "w < length (poolThreads (pool s))"
    and "poolThreads (pool s) ! w = InTask pc"
  shows "single_flight (set_task w pc' s)"
  using assms(1) in_flight_set_task [OF assms(2, 3)]
  by (simp add: single_flight_def)

lemma single_flight_queue:
  "single_flight s \<Longrightarrow> single_flight (s\<lparr>eventQueue := q\<rparr>)"
  "single_flight s \<Longrightarrow> single_flight (invokeCallback e s)"
  by (simp_all add: single_flight_def in_flight_unchanged)

lemma single_flight_clear:
  assumes "single_flight s" and "w < length (poolThreads (pool s))"
    and "poolThreads (pool s) ! w = InTask pc"
  shows "single_flight (task_clear_flag w s)"
proof -
  have "processingScheduled (task_clear_flag w s) = False"
    by (simp add: task_clear_flag_def)
  moreover from assms(1) in_flight_clear [OF assms(2, 3)]
  have "in_flight (task_clear_flag w s) = 0"
    by (simp add: single_flight_def split: if_splits)
  ultimately show ?thesis
    by (simp add: single_flight_def)
qed

lemma single_flight_step: "single_flight s \<Longrightarrow> single_flight (step a s)"
proof (cases a)
  case (Post i e)
  assume "single_flight s"
  with Post show ?thesis
    by (auto simp: single_flight_post_check split: option.splits post_pc.splits if_splits)
next
  case (PostPush i)
  assume "single_flight s"
  with PostPush show ?thesis
    by (auto simp: single_flight_post_push split: option.splits post_pc.splits if_splits)
next
  case (PostCAS i)
  assume "single_flight s"
  with PostCAS show ?thesis
    by (auto simp: single_flight_post_cas split: option.splits post_pc.splits if_splits)
next
  case (PostSubmit i)
  assume "single_flight s"
  with PostSubmit show ?thesis
    by (auto simp: single_flight_post_submit split: option.splits post_pc.splits if_splits)
next
  case (PoolThread w)
  assume inv: "single_flight s"
  show ?thesis
  proof (cases "w < length (poolThreads (pool s))")
    case False
    with PoolThread inv show ?thesis by simp
  next
    case True
    show ?thesis
    proof (cases "poolThreads (pool s) ! w")
      case AtWait
      with PoolThread True inv show ?thesis
        by (simp add: single_flight_wait)
    next
      case Finished
      with PoolThread True inv show ?thesis by simp
    next
      case (InTask pc)
      show ?thesis
      proof (cases pc)
        case AtProcessEvents
        with PoolThread True InTask inv show ?thesis
          by (simp add: processEvents_entry_def single_flight_set_task)
      next
        case AtSwap
        with PoolThread True InTask inv show ?thesis
          by (simp add: processEvents_swap_def single_flight_set_task single_flight_queue)
      next
        case (Delivering es)
        with PoolThread True InTask inv show ?thesis
          by (cases es)
             (simp_all add: single_flight_set_task single_flight_queue in_flight_unchanged)
      next
        case AtClearFlag
        with PoolThread True InTask inv show ?thesis
          by (simp add: single_flight_clear)
      qed
    qed
  qed
qed

lemma single_flight_run: "single_flight s \<Longrightarrow> single_flight (run as s)"
  by (induction as arbitrary: s) (simp_all add: single_flight_step)

text \<open>
  Three facts about single steps: a task enters the queue of the pool only by the submit
  step of a thread that won the compare-and-swap; a thread comes to that point only by a
  compare-and-swap that found the flag clear and set it; the flag is cleared only by the
  last step of a running drain task.
\<close>

lemma processEvents_deliver_keeps:
  "accepted (pool (processEvents_deliver w es s)) = accepted (pool s)"
  "posters (processEvents_deliver w es s) = posters s"
  "processingScheduled (processEvents_deliver w es s) = processingScheduled s"
  by (cases es; simp add: set_task_def invokeCallback_def)+

lemma submit_only_after_cas:
  assumes "accepted (pool (step a s)) \<noteq> accepted (pool s)"
  shows "\<exists>i. a = PostSubmit i \<and> poster_at s i = Some Submitting"
proof (cases a)
  case (Post i e)
  with assms show ?thesis
    by (auto simp: post_check_def split: option.splits post_pc.splits if_splits)
next
  case (PostPush i)
  with assms show ?thesis
    by (auto simp: post_push_def split: option.splits post_pc.splits if_splits)
next
  case (PostCAS i)
  with assms show ?thesis
    by (auto simp: post_cas_def split: option.splits post_pc.splits if_splits)
next
  case (PostSubmit i)
  with assms show ?thesis
    by (auto split: option.splits post_pc.splits if_splits)
next
  case (PoolThread w)
  with assms show ?thesis
    by (auto simp: worker_wait_def processEvents_entry_def processEvents_swap_def set_task_def
        processEvents_deliver_keeps task_clear_flag_def worker_done_def
        split: option.splits pool_thread.splits drain_pc.splits if_splits)
qed

lemma submitting_only_by_cas:
  assumes "poster_at (step a s) i = Some Submitting" and "poster_at s i \<noteq> Some Submitting"
  shows "a = PostCAS i \<and> processingScheduled s = False \<and> processingScheduled (step a s)"
proof (cases a)
  case (Post j e)
  with assms show ?thesis
    by (auto simp: post_check_def nth_list_update
        split: option.splits post_pc.splits if_splits)
next
  case (PostPush j)
  with assms show ?thesis
    by (auto simp: post_push_def nth_list_update
        split: option.splits post_pc.splits if_splits)
next
  case (PostCAS j)
  with assms show ?thesis
    by (auto simp: post_cas_def nth_list_update
        split: option.splits post_pc.splits if_splits)
next
  case (PostSubmit j)
  with assms show ?thesis
    by (auto simp: post_submit_def nth_list_update
        split: option.splits post_pc.splits if_splits)
next
  case (PoolThread w)
  with assms show ?thesis
    by (auto simp: worker_wait_def processEvents_entry_def processEvents_swap_def set_task_def
        processEvents_deliver_keeps task_clear_flag_def worker_done_def
        split: option.splits pool_thread.splits drain_pc.splits if_splits)
qed

lemma flag_cleared_only_by_task_end:
  assumes "processingScheduled s" and "\<not> processingScheduled (step a s)"
  shows "\<exists>w. a = PoolThread w \<and> pool_thread_at s w = Some (InTask AtClearFlag)"
proof (cases a)
  case (Post j e)
  with assms show ?thesis
    by (auto simp: post_check_def split: option.splits post_pc.splits if_splits)
next
  case (PostPush j)
  with assms show ?thesis
    by (auto simp: post_push_def split: option.splits post_pc.splits if_splits)
next
  case (PostCAS j)
  with assms show ?thesis
    by (auto simp: post_cas_def split: option.splits post_pc.splits if_splits)
next
  case (PostSubmit j)
  with assms show ?thesis
    by (auto simp: post_submit_def split: option.splits post_pc.splits if_splits)
next
  case (PoolThread w)
  with assms show ?thesis
    by (auto simp: worker_wait_def processEvents_entry_def processEvents_swap_def set_task_def
        processEvents_deliver_keeps task_clear_flag_def worker_done_def
        split: option.splits pool_thread.splits drain_pc.splits if_splits)
qed

text \<open>
  Claim C2. From a state with no drain task in flight, whatever the interleaving of the
  steps of the posting threads and of the pool threads, at most one drain task is in
  flight (submitted by a thread whose compare-and-swap succeeded, queued, or running),
  and whenever one is in flight the flag is set. In every state reached, a step puts a
  task into the pool only as the submit of a thread that won the compare-and-swap, and a
  step clears the flag only as the end of the running drain task.
\<close>

theorem at_most_one_drain_in_flight:
  assumes "in_flight s = 0"
  shows "in_flight (run as s) \<le> 1
    \<and> (processingScheduled (run as s) \<or> in_flight (run as s) = 0)
    \<and> (accepted (pool (step a (run as s))) \<noteq> accepted (pool (run as s)) \<longrightarrow>
         (\<exists>i. a = PostSubmit i \<and> poster_at (run as s) i = Some Submitting))
    \<and> (poster_at (step a (run as s)) i = Some Submitting
         \<and> poster_at (run as s) i \<noteq> Some Submitting \<longrightarrow>
         a = PostCAS i \<and> processingScheduled (run as s) = False
         \<and> processingScheduled (step a (run as s)))
    \<and> (processingScheduled (run as s) \<and> \<not> processingScheduled (step a (run as s)) \<longrightarrow>
         (\<exists>w. a = PoolThread w \<and> pool_thread_at (run as s) w = Some (InTask AtClearFlag)))"
proof -
  from assms have "single_flight s"
    by (simp add: single_flight_def)
  then have "single_flight (run as s)"
    by (rule single_flight_run)
  then have "in_flight (run as s) \<le> 1"
    and "processingScheduled (run as s) \<or> in_flight (run as s) = 0"
    by (auto simp: single_flight_def split: if_splits)
  then show ?thesis
    using submit_only_after_cas [of a "run as s"] submitting_only_by_cas [of a "run as s" i]
      flag_cleared_only_by_task_end [of "run as s" a]
    by blast
qed

theorem at_most_one_drain_in_flight_witness:
  "in_flight (bridge_init 2 1) = 0
   \<and> in_flight (run two_posters (bridge_init 2 1)) = 1
   \<and> processingScheduled (run two_posters (bridge_init 2 1))
   \<and> posters (run two_posters (bridge_init 2 1)) = [Idle, Idle]"
proof -
  have start: "in_flight (bridge_init 2 1) = 0"
    by code_simp
  have one: "in_flight (run two_posters (bridge_init 2 1)) = 1"
    by code_simp
  have idle: "posters (run two_posters (bridge_init 2 1)) = [Idle, Idle]"
    by code_simp
  from at_most_one_drain_in_flight [OF start, of two_posters "PoolThread 0" 0] start one idle
  show ?thesis
    by simp
qed

section \<open>Properties of io_bridge.cpp: an event posted during a drain\<close>

lemma run_append: "run (as @ bs) s = run bs (run as s)"
  by (induction as arbitrary: s) simp_all

text \<open>
  In a quiescent state only a new post changes anything: every other step of a posting
  thread or of a pool thread leaves the state as it is.
\<close>

lemma quiescent_step:
  assumes "quiescent s" and "\<not> is_Post a"
  shows "step a s = s"
proof (cases a)
  case (Post i e)
  with assms(2) show ?thesis
    by (simp add: is_Post_def)
next
  case (PostPush i)
  with assms(1) show ?thesis
    by (auto simp: quiescent_def list_all_length split: option.splits post_pc.splits)
next
  case (PostCAS i)
  with assms(1) show ?thesis
    by (auto simp: quiescent_def list_all_length split: option.splits post_pc.splits)
next
  case (PostSubmit i)
  with assms(1) show ?thesis
    by (auto simp: quiescent_def list_all_length split: option.splits post_pc.splits)
next
  case (PoolThread w)
  with assms(1) show ?thesis
    by (auto simp: quiescent_def list_all_length worker_wait_def
        split: option.splits pool_thread.splits drain_pc.splits)
qed

lemma quiescent_run:
  "quiescent s \<Longrightarrow> run (filter (\<lambda>a. \<not> is_Post a) as) s = s"
  by (induction as) (simp_all add: quiescent_step)

lemma post_during_drain_end:
  "run post_during_drain (bridge_init 1 1) =
     (bridge_init 1 1)
       \<lparr>eventQueue := [second_event], delivered := [first_event],
        pool := (initializeThreadPool 1)
          \<lparr>accepted := [AtProcessEvents], started := [AtProcessEvents]\<rparr>\<rparr>"
  by (simp add: post_during_drain_def bridge_init_def initializeThreadPool_def
      post_check_def isInitialized_def post_push_def post_cas_def post_submit_def
      submitTask_def worker_wait_def processEvents_entry_def set_task_def
      processEvents_swap_def invokeCallback_def task_clear_flag_def worker_done_def)

lemma post_during_drain_quiescent: "quiescent (run post_during_drain (bridge_init 1 1))"
  unfolding post_during_drain_end
  by (simp add: quiescent_def bridge_init_def initializeThreadPool_def)

text \<open>
  Claim C1, at the input where the code leaves it. The second event is posted after the
  swap of the running drain and before that drain clears the flag. When the drain has
  ended, the event is in the queue, the flag is clear and no task is in flight; whatever
  steps the threads take from there, short of a further post, the event is never
  delivered.
\<close>

theorem event_posted_during_drain_stays_queued:
  "delivered (run (post_during_drain @ filter (\<lambda>a. \<not> is_Post a) as) (bridge_init 1 1))
     = [first_event]
   \<and> eventQueue (run (post_during_drain @ filter (\<lambda>a. \<not> is_Post a) as) (bridge_init 1 1))
     = [second_event]
   \<and> processingScheduled
       (run (post_during_drain @ filter (\<lambda>a. \<not> is_Post a) as) (bridge_init 1 1)) = False
   \<and> in_flight (run (post_during_drain @ filter (\<lambda>a. \<not> is_Post a) as) (bridge_init 1 1)) = 0"
proof -
  have "run (post_during_drain @ filter (\<lambda>a. \<not> is_Post a) as) (bridge_init 1 1)
      = run post_during_drain (bridge_init 1 1)"
    by (simp only: run_append quiescent_run [OF post_during_drain_quiescent])
  then show ?thesis
    unfolding post_during_drain_end
    by (simp add: in_flight_def bridge_init_def initializeThreadPool_def)
qed

section \<open>Properties of socket_manager.cpp: start and removal\<close>

text \<open>
  Claim C6. \<open>startServer\<close> on a server that is running returns false, and the whole
  state of the server (the listening socket, the running flag, the list of clients and
  every connection in it) is as it was before the call.
\<close>

theorem startServer_while_running:
  "isRunning s \<Longrightarrow> startServer p os s = (False, s)"
  by (simp add: startServer_def)

theorem startServer_while_running_witness:
  "isRunning two_clients
   \<and> startServer 9000
        \<lparr>socket_result = 9, setsockopt_result = 0, bind_result = 0, listen_result = 0\<rparr>
        two_clients = (False, two_clients)"
  using startServer_while_running [of two_clients 9000
      "\<lparr>socket_result = 9, setsockopt_result = 0, bind_result = 0, listen_result = 0\<rparr>"]
  by (simp add: two_clients_def)

text \<open>Removal: what \<open>detach\<close> finds and leaves.\<close>

lemma detach_absent:
  "fd \<notin> socketFd ` set cs \<Longrightarrow> detach fd cs = (None, cs)"
  by (induction cs) auto

lemma detach_found:
  "detach fd cs = (Some c, cs') \<Longrightarrow>
     socketFd c = fd \<and> isConnected c = False \<and> length cs = Suc (length cs')
     \<and> set cs' \<subseteq> set cs"
  by (induction cs arbitrary: cs') (auto split: if_splits prod.splits)

lemma detach_removes:
  "distinct (map socketFd cs) \<Longrightarrow> fd \<notin> socketFd ` set (snd (detach fd cs))"
  by (induction cs) (auto split: prod.splits)

lemma detach_keeps_others:
  "fd' \<noteq> fd \<Longrightarrow>
     filter (\<lambda>c. socketFd c = fd') (snd (detach fd cs)) = filter (\<lambda>c. socketFd c = fd') cs"
  by (induction cs) (auto split: prod.splits)

lemma removeClient_absent:
  "fd \<notin> socketFd ` set (clients s) \<Longrightarrow> removeClient self fd s = (None, s)"
  by (simp add: removeClient_def detach_absent)

lemma detach_None: "fst (detach fd cs) = None \<Longrightarrow> snd (detach fd cs) = cs"
  by (induction cs) (auto split: prod.splits)

lemma notifyConnectionChange_clients: "clients (notifyConnectionChange s) = clients s"
  by (simp add: notifyConnectionChange_def)

lemma removeClient_clients:
  "clients (snd (removeClient self fd s)) = snd (detach fd (clients s))"
proof (cases "detach fd (clients s)")
  case (Pair found cs)
  show ?thesis
  proof (cases found)
    case None
    with Pair detach_None [of fd "clients s"] show ?thesis
      by (simp add: removeClient_def)
  next
    case (Some c)
    with Pair show ?thesis
      by (simp add: removeClient_def Let_def notifyConnectionChange_clients
          split: option.splits)
  qed
qed

text \<open>
  A second removal of a descriptor does nothing, whichever thread made the first and
  however the first ended.
\<close>

lemma removeClient_twice:
  assumes "distinct (map socketFd (clients s))"
  shows "removeClient self' fd (snd (removeClient self fd s))
    = (None, snd (removeClient self fd s))"
  by (rule removeClient_absent) (simp add: removeClient_clients detach_removes [OF assms])

text \<open>
  The first removal, made by a thread other than the reader of the connection: the
  descriptor is closed, the reader is joined, one count event is raised.
\<close>

lemma removeClient_from_other_thread:
  assumes "detach fd (clients s) = (Some c, cs)" and "handlerThread c = Some t"
    and "t \<noteq> self" and "0 \<le> fd" and "ioBridge s \<noteq> nullptr"
  shows "removeClient self fd s =
    (None, s\<lparr>clients := cs,
             calls := calls s @ [Close fd, Join t,
               PostIntEvent ''socket_client_count'' (of_nat (length (filter isConnected cs)))]\<rparr>)"
  using assms detach_found [OF assms(1)]
  by (simp add: removeClient_def Let_def notifyConnectionChange_def getConnectedClientCount_def)

text \<open>
  The first removal, made by the reader thread of the connection itself: the join is a
  join of the calling thread, the exception leaves \<open>removeClient\<close> before the event is
  raised.
\<close>

lemma removeClient_self_join:
  assumes "detach fd (clients s) = (Some c, cs)" and "handlerThread c = Some self"
  shows "removeClient self fd s =
    (Some system_error,
     if 0 \<le> fd then s\<lparr>clients := cs, calls := calls s @ [Close fd]\<rparr> else s\<lparr>clients := cs\<rparr>)"
  using assms detach_found [OF assms(1)]
  by (simp add: removeClient_def Let_def)

text \<open>
  Claim C5, at the input where the code leaves it. The reader thread 7 of socket 5 ends
  its loop and calls \<open>removeClient\<close>: the connection is detached and the descriptor
  closed, then the join raises; no thread is joined and no count event is raised. The
  same call from thread 1 (the sender) closes, joins and raises the event.
\<close>

theorem removeClient_on_reader_thread:
  "removeClient 7 5 two_clients =
     (Some system_error,
      two_clients\<lparr>clients := [\<lparr>socketFd = 6, handlerThread = Some 8, isConnected = True\<rparr>],
                  calls := [Close 5]\<rparr>)
   \<and> removeClient 1 5 two_clients =
     (None,
      two_clients\<lparr>clients := [\<lparr>socketFd = 6, handlerThread = Some 8, isConnected = True\<rparr>],
                  calls := [Close 5, Join 7, PostIntEvent ''socket_client_count'' 1]\<rparr>)"
  by (simp add: removeClient_def two_clients_def Let_def notifyConnectionChange_def
      getConnectedClientCount_def)

section \<open>Properties of socket_manager.cpp: the reader loop\<close>

lemma handleClient_loop_clients: "clients (handleClient_loop input s) = clients s"
proof (induction input s rule: handleClient_loop.induct)
  case (1 input s)
  then show ?case
    by (subst handleClient_loop.simps) (simp add: forward_message_def)
qed

text \<open>Every framing violation ends the loop where it stands.\<close>

lemma handleClient_loop_violation:
  assumes "length input < 4 \<or> messageLen input = 0 \<or> BUFFER_SIZE < messageLen input
    \<or> length input - 4 < messageLen input"
  shows "handleClient_loop input s = s"
  using assms by (subst handleClient_loop.simps) auto

text \<open>A frame that is complete is forwarded, and the loop goes on with the rest.\<close>

lemma handleClient_loop_frame:
  assumes "isRunning s" and "4 \<le> length input" and "0 < messageLen input"
    and "messageLen input \<le> BUFFER_SIZE" and "messageLen input \<le> length input - 4"
  shows "handleClient_loop input s =
    handleClient_loop (drop (4 + messageLen input) input)
      (forward_message (take (messageLen input) (drop 4 input)) s)"
  using assms by (subst handleClient_loop.simps) auto

lemma messageLen_example: "messageLen [0, 0, 0, 2, 104, 105] = 2"
  by (simp add: messageLen_def ntohl_bytes_def)

lemma handleClient_loop_example:
  "handleClient_loop [0, 0, 0, 2, 104, 105] two_clients =
     two_clients\<lparr>calls := [PostStringEvent ''socket_message'' [104, 105]]\<rparr>"
proof -
  have "handleClient_loop [0, 0, 0, 2, 104, 105] two_clients =
      handleClient_loop [] (forward_message [104, 105] two_clients)"
    by (subst handleClient_loop_frame)
       (simp_all add: messageLen_example two_clients_def BUFFER_SIZE_def)
  also have "\<dots> = forward_message [104, 105] two_clients"
    by (rule handleClient_loop_violation) simp
  finally show ?thesis
    by (simp add: forward_message_def two_clients_def)
qed

text \<open>
  Whatever the peer sends, the reader thread of a connection that is in the list ends
  in the removal of its own connection, and the join of itself there ends the process.
\<close>

lemma handleClient_terminates_process:
  assumes "detach fd (clients s) = (Some c, cs)" and "handlerThread c = Some self"
  shows "fst (handleClient self fd input s) = ProcessTerminated"
proof -
  have "detach fd (clients (handleClient_loop input s)) = (Some c, cs)"
    using assms(1) by (simp add: handleClient_loop_clients)
  from removeClient_self_join [OF this assms(2)] show ?thesis
    by (simp add: handleClient_def)
qed

text \<open>
  Claim C7, at the input where the code leaves it. The peer of socket 5 sends a length
  prefix of zero; the reader thread 7 ends its loop and removes its connection, and the
  exception of the join leaves the thread function: the process is terminated, with
  the connection of socket 6 in it.
\<close>

theorem handleClient_zero_length_prefix:
  "handleClient 7 5 [0, 0, 0, 0] two_clients =
     (ProcessTerminated,
      two_clients\<lparr>clients := [\<lparr>socketFd = 6, handlerThread = Some 8, isConnected = True\<rparr>],
                  calls := [Close 5]\<rparr>)"
proof -
  have "handleClient_loop [0, 0, 0, 0] two_clients = two_clients"
    by (rule handleClient_loop_violation) (simp add: messageLen_def ntohl_bytes_def)
  then show ?thesis
    by (simp add: handleClient_def removeClient_def two_clients_def Let_def)
qed

section \<open>Properties of socket_manager.cpp: the sender\<close>

lemma take_min_length: "take (min k (length xs)) xs = take k xs"
  by (cases "k \<le> length xs") (simp_all add: min_def)

lemma send_call_wire:
  "0 \<le> fst (send_call data p) \<Longrightarrow>
     wire (snd (send_call data p)) = wire p @ take (nat (fst (send_call data p))) data"
  by (auto simp: send_call_def take_min_length split: list.splits send_result.splits)

lemma send_payload_wire:
  "fst (send_payload data p) \<Longrightarrow> wire (snd (send_payload data p)) = wire p @ data"
proof (induction data p rule: send_payload.induct)
  case (1 data p)
  show ?case
  proof (cases "data = []")
    case True
    then show ?thesis by (subst send_payload.simps) simp
  next
    case False
    from "1.prems" False have nonneg: "\<not> fst (send_call data p) < 0"
      by (subst (asm) send_payload.simps) (auto split: if_splits)
    from "1.prems" False nonneg
    have ok: "fst (send_payload (drop (nat (fst (send_call data p))) data) (snd (send_call data p)))"
      by (subst (asm) send_payload.simps) simp
    have "wire (snd (send_payload data p)) =
        wire (snd (send_payload (drop (nat (fst (send_call data p))) data) (snd (send_call data p))))"
      using False nonneg by (subst send_payload.simps) simp
    also have "\<dots> = wire (snd (send_call data p)) @ drop (nat (fst (send_call data p))) data"
      by (rule "1.IH" [OF False nonneg ok])
    also have "\<dots> = wire p @ data"
      using nonneg by (simp add: send_call_wire)
    finally show ?thesis .
  qed
qed

lemma length_htonl_bytes: "length (htonl_bytes w) = 4"
  by (simp add: htonl_bytes_def)

lemma send_frame_wire:
  assumes "fst (send_frame message p)"
  shows "wire (snd (send_frame message p)) =
    wire p @ htonl_bytes (of_nat (length message)) @ message"
proof -
  let ?prefix = "htonl_bytes (of_nat (length message))"
  from assms have four: "fst (send_call ?prefix p) = 4"
    by (auto simp: send_frame_def split: if_splits)
  with assms have ok: "fst (send_payload message (snd (send_call ?prefix p)))"
    by (simp add: send_frame_def)
  have "wire (snd (send_frame message p)) = wire (snd (send_call ?prefix p)) @ message"
    using four send_payload_wire [OF ok] by (simp add: send_frame_def)
  also have "wire (snd (send_call ?prefix p)) = wire p @ ?prefix"
    using send_call_wire [of ?prefix p] four by (simp add: length_htonl_bytes)
  finally show ?thesis by simp
qed

text \<open>A socket that accepts all it is given takes the whole frame.\<close>

lemma send_payload_accepting:
  "send_script p = [] \<Longrightarrow> send_payload data p = (True, p\<lparr>wire := wire p @ data\<rparr>)"
  by (subst send_payload.simps, subst send_payload.simps) (simp add: send_call_def)

lemma send_frame_accepting:
  "send_script p = [] \<Longrightarrow>
     send_frame message p =
       (True, p\<lparr>wire := wire p @ htonl_bytes (of_nat (length message)) @ message\<rparr>)"
  by (simp add: send_frame_def send_call_def length_htonl_bytes send_payload_accepting)

text \<open>The loop over the snapshot.\<close>

lemma send_to_sockets_other:
  "fd \<notin> set fds \<Longrightarrow> fst (send_to_sockets message fds net toRemove) fd = net fd"
  by (induction fds arbitrary: net toRemove) auto

lemma send_to_sockets_keeps:
  "fd \<in> set toRemove \<Longrightarrow> fd \<in> set (snd (send_to_sockets message fds net toRemove))"
  by (induction fds arbitrary: net toRemove) auto

lemma send_to_sockets_at:
  "distinct fds \<Longrightarrow> fd \<in> set fds \<Longrightarrow>
     fst (send_to_sockets message fds net toRemove) fd = snd (send_frame message (net fd))"
  by (induction fds arbitrary: net toRemove) (auto simp: send_to_sockets_other)

lemma send_to_sockets_failed:
  "fd \<in> set fds \<Longrightarrow> \<not> fst (send_frame message (net fd)) \<Longrightarrow> distinct fds \<Longrightarrow>
     fd \<in> set (snd (send_to_sockets message fds net toRemove))"
proof (induction fds arbitrary: net toRemove)
  case Nil
  then show ?case by simp
next
  case (Cons a fds)
  let ?net = "net(a := snd (send_frame message (net a)))"
  let ?rem = "if fst (send_frame message (net a)) then toRemove else toRemove @ [a]"
  have unfold: "send_to_sockets message (a # fds) net toRemove =
      send_to_sockets message fds ?net ?rem"
    by simp
  show ?case
  proof (cases "fd = a")
    case True
    with Cons.prems(2) have "fd \<in> set ?rem"
      by simp
    then show ?thesis
      unfolding unfold by (rule send_to_sockets_keeps)
  next
    case False
    then have same: "?net fd = net fd"
      by simp
    from False Cons.prems have mem: "fd \<in> set fds" and dist: "distinct fds"
      by simp_all
    have failed: "\<not> fst (send_frame message (?net fd))"
      unfolding same by (rule Cons.prems(2))
    show ?thesis
      unfolding unfold by (rule Cons.IH [of ?net ?rem, OF mem failed dist])
  qed
qed

lemma send_to_sockets_removed:
  "fd \<in> set (snd (send_to_sockets message fds net toRemove)) \<Longrightarrow> distinct fds \<Longrightarrow>
     fd \<in> set toRemove \<or> (fd \<in> set fds \<and> \<not> fst (send_frame message (net fd)))"
proof (induction fds arbitrary: net toRemove)
  case Nil
  then show ?case by simp
next
  case (Cons a fds)
  let ?net = "net(a := snd (send_frame message (net a)))"
  let ?rem = "if fst (send_frame message (net a)) then toRemove else toRemove @ [a]"
  from Cons.prems(2) have dist: "distinct fds" and fresh: "a \<notin> set fds"
    by simp_all
  from Cons.prems(1) have "fd \<in> set (snd (send_to_sockets message fds ?net ?rem))"
    by simp
  from Cons.IH [of ?net ?rem, OF this dist]
  consider "fd \<in> set ?rem" | "fd \<in> set fds" "\<not> fst (send_frame message (?net fd))"
    by blast
  then show ?case
  proof cases
    case 1
    then show ?thesis
      by (auto split: if_splits)
  next
    case 2
    with fresh have "fd \<noteq> a"
      by blast
    with 2 show ?thesis
      by simp
  qed
qed

lemma sendWorker_message_net:
  "fst (snd (sendWorker_message self message net s)) =
     fst (send_to_sockets message (clientSockets s) net [])"
  by (simp add: sendWorker_message_def split: prod.splits)

text \<open>
  What a broadcast puts on the wire of a client of the snapshot that is not queued for
  removal: the prefix and the payload, behind what the socket had sent before.
\<close>

lemma broadcast_frame:
  assumes "fd \<in> set (clientSockets s)" and "distinct (clientSockets s)"
    and "fd \<notin> set (snd (send_to_sockets message (clientSockets s) net []))"
  shows "wire (fst (snd (sendWorker_message self message net s)) fd) =
    wire (net fd) @ htonl_bytes (of_nat (length message)) @ message"
proof -
  have ok: "fst (send_frame message (net fd))"
    using send_to_sockets_failed [OF assms(1) _ assms(2), of message net "[]"] assms(3)
    by blast
  show ?thesis
    by (simp add: sendWorker_message_net send_to_sockets_at [OF assms(2, 1)]
        send_frame_wire [OF ok])
qed

lemma broadcast_accepting:
  assumes "fd \<in> set (clientSockets s)" and "distinct (clientSockets s)"
    and "send_script (net fd) = []"
  shows "fd \<notin> set (snd (send_to_sockets message (clientSockets s) net []))"
  using send_to_sockets_removed [OF _ assms(2), of fd message net "[]"]
    send_frame_accepting [OF assms(3), of message]
  by auto

text \<open>The prefix on the wire decodes to the number it encodes.\<close>

lemma ntohl_htonl: "ntohl_bytes (htonl_bytes w) = w"
proof (rule bit_eqI)
  fix n
  assume "possible_bit TYPE(32 word) n"
  then have "n < 32"
    by (simp add: possible_bit_def)
  then consider "n < 8" | "8 \<le> n" "n < 16" | "16 \<le> n" "n < 24" | "24 \<le> n" "n < 32"
    by linarith
  then show "bit (ntohl_bytes (htonl_bytes w)) n = bit w n"
    by cases (auto simp: ntohl_bytes_def htonl_bytes_def bit_simps)
qed

lemma unat_length_prefix:
  "length message < 2 ^ 32 \<Longrightarrow>
     unat (ntohl_bytes (htonl_bytes (of_nat (length message)))) = length (message :: byte list)"
  by (simp add: ntohl_htonl unat_of_nat)

lemma clientSockets_two_clients: "clientSockets two_clients = [5, 6]"
  by (simp add: clientSockets_def two_clients_def)

text \<open>
  Claim C4, as the code has it. For a message of any length that fits the 32 bits of the
  prefix, every client of the snapshot that is not queued for removal is sent exactly
  4 + len(payload) bytes: a prefix that decodes to len(payload) and the payload. No
  maximum frame size is applied on this path.
\<close>

theorem broadcast_sends_one_frame:
  assumes "fd \<in> set (clientSockets s)" and "distinct (clientSockets s)"
    and "fd \<notin> set (snd (send_to_sockets message (clientSockets s) net []))"
    and "length message < 2 ^ 32"
  shows "wire (fst (snd (sendWorker_message self message net s)) fd) =
      wire (net fd) @ htonl_bytes (of_nat (length message)) @ message
    \<and> length (htonl_bytes (of_nat (length message)) @ message) = 4 + length message
    \<and> unat (ntohl_bytes (htonl_bytes (of_nat (length message)))) = length message"
  using broadcast_frame [OF assms(1-3)] unat_length_prefix [OF assms(4)]
  by (simp add: length_htonl_bytes)

theorem broadcast_sends_one_frame_witness:
  "wire (fst (snd (sendWorker_message 1 [104, 101, 108, 108, 111] idle_peers two_clients)) 5)
     = [0, 0, 0, 5, 104, 101, 108, 108, 111]
   \<and> unat (ntohl_bytes [0, 0, 0, 5]) = 5"
proof -
  have accepted: "5 \<notin> set (snd (send_to_sockets [104, 101, 108, 108, 111]
      (clientSockets two_clients) idle_peers []))"
    by (rule broadcast_accepting) (simp_all add: clientSockets_two_clients idle_peers_def)
  from broadcast_sends_one_frame [OF _ _ accepted, of 1] show ?thesis
    by (simp add: clientSockets_two_clients idle_peers_def htonl_bytes_def)
qed

text \<open>
  The claim as it is written fails: a message of 5000 bytes, above the maximum frame size
  of 4096, is sent to the client of socket 5 as one frame.
\<close>

theorem oversized_message_is_one_frame:
  "BUFFER_SIZE < length (replicate 5000 (97 :: byte))
   \<and> wire (fst (snd (sendWorker_message 1 (replicate 5000 97) idle_peers two_clients)) 5)
     = htonl_bytes 5000 @ replicate 5000 97"
proof -
  have accepted: "5 \<notin> set (snd (send_to_sockets (replicate 5000 97)
      (clientSockets two_clients) idle_peers []))"
    by (rule broadcast_accepting) (simp_all add: clientSockets_two_clients idle_peers_def)
  from broadcast_frame [OF _ _ accepted, of 1] show ?thesis
    by (simp add: clientSockets_two_clients idle_peers_def BUFFER_SIZE_def)
qed

end
